theory Spec2Isabelle
  imports Complex_Main "HOL-Library.Log_Nat"
begin

section \<open>JavaScript containers\<close>

text \<open>
  A JavaScript \<open>Map\<close> iterates in insertion order and keeps the position of a key whose
  value is replaced. It is modelled as an association list with distinct keys:
  \<open>map_of\<close> is \<open>Map.get\<close>, \<open>map_set\<close> is \<open>Map.set\<close>, and the list order is the
  iteration order.
\<close>

type_synonym ('k, 'v) js_map = "('k \<times> 'v) list"

fun map_set :: "'k \<Rightarrow> 'v \<Rightarrow> ('k, 'v) js_map \<Rightarrow> ('k, 'v) js_map" where
  "map_set k v [] = [(k, v)]"
| "map_set k v ((k', v') # ps) =
     (if k = k' then (k, v) # ps else (k', v') # map_set k v ps)"

text \<open>
  \<open>Array.prototype.slice(start, end)\<close>: a negative bound counts from the end of the
  array, both bounds are clamped to the array, and an empty range gives the empty array.
\<close>

definition js_slice :: "'a list \<Rightarrow> int \<Rightarrow> int \<Rightarrow> 'a list" where
  "js_slice xs start fin =
     (let len = int (length xs);
          k = (if start < 0 then max (len + start) 0 else min start len);
          final = (if fin < 0 then max (len + fin) 0 else min fin len)
      in take (nat (final - k)) (drop (nat k) xs))"

text \<open>
  \<open>Array.prototype.forEach((element, index) => ...)\<close> over a callback that updates a
  state: the elements are visited in order, the index counts from the given start.
\<close>

fun forEach :: "('s \<Rightarrow> 'a \<Rightarrow> nat \<Rightarrow> 's) \<Rightarrow> 'a list \<Rightarrow> nat \<Rightarrow> 's \<Rightarrow> 's" where
  "forEach f [] idx s = s"
| "forEach f (x # xs) idx s = forEach f xs (Suc idx) (f s x idx)"

text \<open>
  \<open>Array.prototype.sort(compareFn)\<close> is a stable sort: \<open>a\<close> is placed after \<open>b\<close> only
  when \<open>compareFn(a, b) > 0\<close>, and elements that compare equal keep their order.
  Insertion from the right is such a sort.
\<close>

fun sort_insert :: "('a \<Rightarrow> 'a \<Rightarrow> rat) \<Rightarrow> 'a \<Rightarrow> 'a list \<Rightarrow> 'a list" where
  "sort_insert cmp x [] = [x]"
| "sort_insert cmp x (y # ys) =
     (if cmp x y \<le> 0 then x # y # ys else y # sort_insert cmp x ys)"

definition array_sort :: "('a \<Rightarrow> 'a \<Rightarrow> rat) \<Rightarrow> 'a list \<Rightarrow> 'a list" where
  "array_sort cmp xs = foldr (sort_insert cmp) xs []"

section \<open>JavaScript numbers\<close>

text \<open>
  A JavaScript number is an IEEE 754 binary64 value. A finite number is modelled by its
  value, a rational; an arithmetic operation is the exact operation followed by
  \<open>round_double\<close>, rounding to the nearest binary64 value, ties to the even significand.

  \<open>binary_exponent x\<close> is the exponent \<open>e\<close> with \<open>2 ^ e \<le> x < 2 ^ (e + 1)\<close> of a positive
  \<open>x\<close>: for \<open>x = p / q\<close> in lowest terms it is the difference of the bit lengths of \<open>p\<close>
  and \<open>q\<close>, or one less. A binary64 value of exponent \<open>e\<close> is a multiple of
  \<open>2 ^ (e - 52)\<close> (53 significant bits); below \<open>2 ^ - 1022\<close> the values are the multiples
  of \<open>2 ^ - 1074\<close> (the subnormal numbers).

  Infinities and NaN are not modelled: there is no largest number, and division by zero
  is not a case of the code (the only divisor of \<open>hybridSearch\<close> is \<open>60 + idx\<close> and its
  numbers are at most the number of results).
\<close>

definition binary_exponent :: "rat \<Rightarrow> int" where
  "binary_exponent x =
     (let (p, q) = quotient_of x;
          d = bitlen p - bitlen q
      in if power_int 2 d \<le> x then d else d - 1)"

definition round_half_even :: "rat \<Rightarrow> int" where
  "round_half_even m =
     (let n = \<lfloor>m\<rfloor>;
          r = m - of_int n
      in if r < 1 / 2 then n
         else if 1 / 2 < r then n + 1
         else if even n then n else n + 1)"

definition round_double :: "rat \<Rightarrow> rat" where
  "round_double x =
     (if x = 0 then 0
      else let a = \<bar>x\<bar>;
               q = max (binary_exponent a) (- 1022) - 52
           in sgn x * (of_int (round_half_even (a / power_int 2 q)) * power_int 2 q))"

text \<open>The operators \<open>+\<close>, \<open>-\<close> and \<open>/\<close> on numbers.\<close>

definition double_add :: "rat \<Rightarrow> rat \<Rightarrow> rat" where
  "double_add a b = round_double (a + b)"

definition double_sub :: "rat \<Rightarrow> rat \<Rightarrow> rat" where
  "double_sub a b = round_double (a - b)"

definition double_div :: "rat \<Rightarrow> rat \<Rightarrow> rat" where
  "double_div a b = round_double (a / b)"

section \<open>Hybrid search: reciprocal rank fusion\<close>

text \<open>
  \<open>SearchResult\<close> of the store adapter: \<open>{ title, content, score? }\<close>. The scores are
  JavaScript numbers.
\<close>

record SearchResult =
  sr_title :: string
  sr_content :: string
  sr_score :: "rat option"

text \<open>The value type of the \<open>scores\<close> map of \<open>hybridSearch\<close>.\<close>

record ScoreEntry =
  e_score :: rat
  e_title :: string
  e_content :: string

definition rrf_k :: nat where
  "rrf_k = 60"

text \<open>The map key of a result: the template string \<open>`${result.title}::${result.content}`\<close>.\<close>

definition fusion_key :: "SearchResult \<Rightarrow> string" where
  "fusion_key result = sr_title result @ ''::'' @ sr_content result"

text \<open>
  The body of both \<open>forEach\<close> callbacks of \<open>hybridSearch\<close> (they are the same code):
  add the reciprocal rank to the entry stored under the key, or store a new entry.
\<close>

definition accumulate ::
  "(string, ScoreEntry) js_map \<Rightarrow> SearchResult \<Rightarrow> nat \<Rightarrow> (string, ScoreEntry) js_map" where
  "accumulate scores result idx =
     (let key = fusion_key result;
          rrfScore = double_div 1 (double_add (of_nat rrf_k) (of_nat idx))
      in case map_of scores key of
           Some existing \<Rightarrow>
             map_set key (existing\<lparr>e_score := double_add (e_score existing) rrfScore\<rparr>) scores
         | None \<Rightarrow>
             map_set key
               \<lparr>e_score = rrfScore, e_title = sr_title result, e_content = sr_content result\<rparr>
               scores)"

definition compareFn :: "ScoreEntry \<Rightarrow> ScoreEntry \<Rightarrow> rat" where
  "compareFn a b = double_sub (e_score b) (e_score a)"

definition to_result :: "ScoreEntry \<Rightarrow> SearchResult" where
  "to_result e = \<lparr>sr_title = e_title e, sr_content = e_content e, sr_score = Some (e_score e)\<rparr>"

text \<open>
  The fusion step of \<open>hybridSearch\<close>, from the two result lists to the returned list:
  both passes over the \<open>scores\<close> map, the sort, the truncation and the projection.
\<close>

definition fused_scores ::
  "SearchResult list \<Rightarrow> SearchResult list \<Rightarrow> (string, ScoreEntry) js_map" where
  "fused_scores vectorResults textResults =
     forEach accumulate textResults 0 (forEach accumulate vectorResults 0 [])"

definition rrf_fuse :: "SearchResult list \<Rightarrow> SearchResult list \<Rightarrow> int \<Rightarrow> SearchResult list" where
  "rrf_fuse vectorResults textResults limit =
     map to_result
       (js_slice (array_sort compareFn (map snd (fused_scores vectorResults textResults))) 0 limit)"


section \<open>Strings\<close>

text \<open>
  Strings are byte strings. \<open>is_space\<close> is the ASCII part of the JavaScript
  white-space class \<open>\s\<close> (tab, line feed, vertical tab, form feed, carriage return,
  space), which is also what \<open>String.prototype.trim\<close> removes.
\<close>

definition is_space :: "char \<Rightarrow> bool" where
  "is_space c \<longleftrightarrow> c \<in> set [CHR 0x09, CHR 0x0A, CHR 0x0B, CHR 0x0C, CHR 0x0D, CHR 0x20]"

definition trim :: "string \<Rightarrow> string" where
  "trim s = rev (dropWhile is_space (rev (dropWhile is_space s)))"

text \<open>
  \<open>html.replace(/<[^>]*>/g, " ")\<close>: a \<open><\<close> that is followed somewhere by a \<open>>\<close> starts
  a match that runs to the first such \<open>>\<close>; the match is replaced by one space. The flag
  says that the scan is inside a match.
\<close>

fun strip_tags :: "bool \<Rightarrow> string \<Rightarrow> string" where
  "strip_tags inTag [] = []"
| "strip_tags True (c # cs) =
     (if c = CHR ''>'' then CHR '' '' # strip_tags False cs else strip_tags True cs)"
| "strip_tags False (c # cs) =
     (if c = CHR ''<'' \<and> CHR ''>'' \<in> set cs then strip_tags True cs
      else c # strip_tags False cs)"

text \<open>
  \<open>replace(/\s+/g, " ")\<close>: every maximal run of white space becomes one space. The flag
  says that the previous character was white space.
\<close>

fun collapse_spaces :: "bool \<Rightarrow> string \<Rightarrow> string" where
  "collapse_spaces prev [] = []"
| "collapse_spaces prev (c # cs) =
     (if is_space c
      then (if prev then collapse_spaces True cs else CHR '' '' # collapse_spaces True cs)
      else c # collapse_spaces False cs)"

section \<open>Data model\<close>

datatype error = NoteSourceError | EmbeddingError | StoreError | ConversionError

type_synonym embedding = "rat list"

text \<open>Dates are carried as the ISO strings the note source returns.\<close>

type_synonym date = string

record AppleNoteDetails =
  d_id :: string
  d_title :: string
  d_content :: string
  d_folder :: string
  d_creation_date :: string
  d_modification_date :: string

record AppleNoteSummary =
  s_id :: string
  s_title :: string
  s_folder :: string
  s_modification_date :: string

text \<open>A row of the table \<open>notes\<close>; a nullable column is an option.\<close>

record NoteRecord =
  n_id :: nat
  n_apple_note_id :: "string option"
  n_title :: string
  n_content :: string
  n_html_content :: "string option"
  n_folder_path :: "string option"
  n_creation_date :: "date option"
  n_modification_date :: "date option"
  n_content_hash :: "string option"
  n_embedding :: "embedding option"
  n_indexed_at :: nat

text \<open>The argument object of \<open>upsertNote\<close>; an optional property is an option.\<close>

record UpsertArgs =
  u_apple_note_id :: string
  u_title :: string
  u_content :: string
  u_html_content :: "string option"
  u_folder_path :: "string option"
  u_creation_date :: "date option"
  u_modification_date :: "date option"
  u_content_hash :: "string option"
  u_embedding :: "embedding option"

datatype job_status = Pending | Running | Completed | Failed | Paused

text \<open>A row of the table \<open>indexing_jobs\<close>.\<close>

record IndexingJob =
  j_id :: nat
  j_started_at :: nat
  j_completed_at :: "nat option"
  j_total_notes :: nat
  j_processed_notes :: nat
  j_failed_notes :: nat
  j_status :: job_status

text \<open>\<open>IndexingResult\<close> without \<open>timeMs\<close>, which is wall-clock time.\<close>

record IndexingResult =
  r_jobId :: nat
  r_totalNotes :: nat
  r_processedNotes :: nat
  r_failedNotes :: nat
  r_status :: job_status

section \<open>The collaborators and the world\<close>

text \<open>
  What the run tells its collaborators, as a test double would record it: every call of
  the embedding service with its text, every \<open>upsertNote\<close> statement with its external
  id, and every state of a job row that a statement has written.
\<close>

datatype event = EmbedCall string | UpsertCall string | JobState IndexingJob

text \<open>
  The state the code works on. \<open>tick\<close> counts the calls made so far to the note source,
  the embedding service and the store. \<open>notes_table\<close> is the table \<open>notes\<close> in row order,
  \<open>jobs_table\<close> the table \<open>indexing_jobs\<close> by primary key, and the two sequences are those of
  the \<open>SERIAL\<close> columns.
\<close>

record world =
  tick :: nat
  notes_table :: "NoteRecord list"
  notes_id_seq :: nat
  jobs_table :: "nat \<Rightarrow> IndexingJob option"
  jobs_id_seq :: nat
  events :: "event list"

text \<open>
  The collaborators, as functions of the tick at which they are called, so that each of
  them can fail at any call: the JXA bridge to the note source, the feature-extraction
  pipeline, the reachability and the clock of the store, the two similarity queries of
  the store (functions of the table), and the two library functions \<open>sha256\<close> (hex
  digest) and \<open>turndown\<close>.
\<close>

record env =
  jxa_summaries :: "nat \<Rightarrow> error + AppleNoteSummary list"
  jxa_details_by_id :: "nat \<Rightarrow> string \<Rightarrow> error + AppleNoteDetails option"
  jxa_all_details :: "nat \<Rightarrow> error + AppleNoteDetails list"
  extractor :: "nat \<Rightarrow> string \<Rightarrow> error + embedding"
  store_up :: "nat \<Rightarrow> bool"
  store_now :: "nat \<Rightarrow> nat"
  vector_query :: "NoteRecord list \<Rightarrow> embedding \<Rightarrow> int \<Rightarrow> SearchResult list"
  text_query :: "NoteRecord list \<Rightarrow> string \<Rightarrow> int \<Rightarrow> SearchResult list"
  sha256_hex :: "string \<Rightarrow> string"
  turndown :: "string \<Rightarrow> error + string"

text \<open>
  An asynchronous function is a function of the world that returns its result, or the
  error it rejects with, and the world it leaves. \<open>andThen\<close> is \<open>await\<close> followed by the
  rest of the function: a rejection ends the function.
\<close>

type_synonym 'a async = "world \<Rightarrow> (error + 'a) \<times> world"

definition andThen :: "'a async \<Rightarrow> ('a \<Rightarrow> 'b async) \<Rightarrow> 'b async" where
  "andThen m f w = (case m w of (Inl e, w1) \<Rightarrow> (Inl e, w1) | (Inr x, w1) \<Rightarrow> f x w1)"

definition advance :: "world \<Rightarrow> world" where
  "advance w = w\<lparr>tick := Suc (tick w)\<rparr>"

definition emit :: "event \<Rightarrow> world \<Rightarrow> world" where
  "emit e w = w\<lparr>events := events w @ [e]\<rparr>"

section \<open>Note source and embedding service\<close>

text \<open>
  The functions of the note source run a JXA script and parse its answer; the embedding
  function runs the feature-extraction pipeline. Each is the answer of its collaborator
  at the tick of the call, \<open>null\<close> of the script being \<open>None\<close>, and each call advances
  the tick.
\<close>

definition generateContentHash :: "env \<Rightarrow> string \<Rightarrow> string" where
  "generateContentHash env content = take 16 (sha256_hex env content)"

definition getAllNotesSummary :: "env \<Rightarrow> AppleNoteSummary list async" where
  "getAllNotesSummary env w = (jxa_summaries env (tick w), advance w)"

definition getNoteDetailsById :: "env \<Rightarrow> string \<Rightarrow> AppleNoteDetails option async" where
  "getNoteDetailsById env noteId w = (jxa_details_by_id env (tick w) noteId, advance w)"

definition getAllNotesWithDetails :: "env \<Rightarrow> AppleNoteDetails list async" where
  "getAllNotesWithDetails env w = (jxa_all_details env (tick w), advance w)"

definition generateEmbedding :: "env \<Rightarrow> string \<Rightarrow> embedding async" where
  "generateEmbedding env text w = (extractor env (tick w) text, emit (EmbedCall text) (advance w))"

definition prepareTextForEmbedding :: "string \<Rightarrow> string \<Rightarrow> string" where
  "prepareTextForEmbedding title content = trim (title @ [CHR 0x0A, CHR 0x0A] @ content)"

definition htmlToMarkdown :: "env \<Rightarrow> string \<Rightarrow> string" where
  "htmlToMarkdown env html =
     (case turndown env html of
        Inr markdown \<Rightarrow> markdown
      | Inl err \<Rightarrow> trim (collapse_spaces False (strip_tags False html)))"


section \<open>Store adapter\<close>

text \<open>
  \<open>value || null\<close> on an optional string: an absent value and the empty string both
  become \<open>NULL\<close>. Dates and arrays are objects, which are never falsy.
\<close>

definition or_null :: "string option \<Rightarrow> string option" where
  "or_null v = (case v of None \<Rightarrow> None | Some s \<Rightarrow> (if s = [] then None else Some s))"

text \<open>
  Every statement is one call to the store: it fails when the store is unreachable at
  that tick, and \<open>NOW()\<close> is the store's clock at that tick.
\<close>

definition conflict_update :: "UpsertArgs \<Rightarrow> nat \<Rightarrow> NoteRecord \<Rightarrow> NoteRecord" where
  "conflict_update note now row =
     row\<lparr>n_title := u_title note,
         n_content := u_content note,
         n_html_content := or_null (u_html_content note),
         n_folder_path := or_null (u_folder_path note),
         n_creation_date := u_creation_date note,
         n_modification_date := u_modification_date note,
         n_content_hash := or_null (u_content_hash note),
         n_embedding := u_embedding note,
         n_indexed_at := now\<rparr>"

definition inserted_row :: "UpsertArgs \<Rightarrow> nat \<Rightarrow> nat \<Rightarrow> NoteRecord" where
  "inserted_row note now new_id =
     \<lparr>n_id = new_id,
      n_apple_note_id = Some (u_apple_note_id note),
      n_title = u_title note,
      n_content = u_content note,
      n_html_content = or_null (u_html_content note),
      n_folder_path = or_null (u_folder_path note),
      n_creation_date = u_creation_date note,
      n_modification_date = u_modification_date note,
      n_content_hash = or_null (u_content_hash note),
      n_embedding = u_embedding note,
      n_indexed_at = now\<rparr>"

text \<open>
  \<open>INSERT INTO notes ... ON CONFLICT (apple_note_id) DO UPDATE SET ... RETURNING id\<close>.
  The default of the \<open>SERIAL\<close> column draws from the sequence before the conflict is
  looked for. A row with the same \<open>apple_note_id\<close> is updated in place and keeps its
  \<open>id\<close>; otherwise the row is appended, unless its new \<open>id\<close> is already a primary key.
\<close>

definition upsertNote :: "env \<Rightarrow> UpsertArgs \<Rightarrow> nat async" where
  "upsertNote env note w =
     (let w1 = emit (UpsertCall (u_apple_note_id note)) (advance w) in
      if \<not> store_up env (tick w) then (Inl StoreError, w1)
      else
        let now = store_now env (tick w);
            new_id = Suc (notes_id_seq w);
            w2 = w1\<lparr>notes_id_seq := new_id\<rparr>
        in case find (\<lambda>row. n_apple_note_id row = Some (u_apple_note_id note)) (notes_table w) of
             Some existing \<Rightarrow>
               (Inr (n_id existing),
                w2\<lparr>notes_table :=
                     map (\<lambda>row. if n_apple_note_id row = Some (u_apple_note_id note)
                                 then conflict_update note now row else row)
                         (notes_table w)\<rparr>)
           | None \<Rightarrow>
               if new_id \<in> n_id ` set (notes_table w) then (Inl StoreError, w2)
               else (Inr new_id,
                     w2\<lparr>notes_table := notes_table w @ [inserted_row note now new_id]\<rparr>))"

text \<open>
  \<open>getAllNoteHashes\<close>: the rows with an \<open>apple_note_id\<close>, and of those the ones whose
  \<open>content_hash\<close> is truthy, as a \<open>Map\<close> in row order.
\<close>

fun note_hashes :: "NoteRecord list \<Rightarrow> (string, string) js_map \<Rightarrow> (string, string) js_map" where
  "note_hashes [] m = m"
| "note_hashes (row # rows) m =
     note_hashes rows
       (case (n_apple_note_id row, or_null (n_content_hash row)) of
          (Some apple_id, Some content_hash) \<Rightarrow> map_set apple_id content_hash m
        | _ \<Rightarrow> m)"

definition getAllNoteHashes :: "env \<Rightarrow> (string, string) js_map async" where
  "getAllNoteHashes env w =
     (if store_up env (tick w) then (Inr (note_hashes (notes_table w) []), advance w)
      else (Inl StoreError, advance w))"

text \<open>
  \<open>deleteNotesByAppleIds\<close>: no statement for an empty array; otherwise
  \<open>DELETE FROM notes WHERE apple_note_id = ANY($1)\<close>, returning the number of rows
  deleted.
\<close>

definition deleteNotesByAppleIds :: "env \<Rightarrow> string list \<Rightarrow> nat async" where
  "deleteNotesByAppleIds env appleNoteIds w =
     (if length appleNoteIds = 0 then (Inr 0, w)
      else if \<not> store_up env (tick w) then (Inl StoreError, advance w)
      else
        let kept = filter (\<lambda>row. \<not> (\<exists>k \<in> set appleNoteIds. n_apple_note_id row = Some k))
                          (notes_table w)
        in (Inr (length (notes_table w) - length kept), (advance w)\<lparr>notes_table := kept\<rparr>))"

text \<open>
  \<open>createIndexingJob\<close>: \<open>INSERT INTO indexing_jobs (total_notes, status) VALUES ($1,
  'running') RETURNING id\<close>; the other columns take their defaults.
\<close>

definition createIndexingJob :: "env \<Rightarrow> nat \<Rightarrow> nat async" where
  "createIndexingJob env totalNotes w =
     (if \<not> store_up env (tick w) then (Inl StoreError, advance w)
      else
        let new_id = Suc (jobs_id_seq w);
            w1 = (advance w)\<lparr>jobs_id_seq := new_id\<rparr>;
            job = \<lparr>j_id = new_id, j_started_at = store_now env (tick w), j_completed_at = None,
                   j_total_notes = totalNotes, j_processed_notes = 0, j_failed_notes = 0,
                   j_status = Running\<rparr>
        in if jobs_table w new_id \<noteq> None then (Inl StoreError, w1)
           else (Inr new_id, emit (JobState job) (w1\<lparr>jobs_table := (jobs_table w)(new_id \<mapsto> job)\<rparr>)))"

text \<open>\<open>UPDATE indexing_jobs SET processed_notes = $2, failed_notes = $3 WHERE id = $1\<close>.\<close>

definition updateJobProgress :: "env \<Rightarrow> nat \<Rightarrow> nat \<Rightarrow> nat \<Rightarrow> unit async" where
  "updateJobProgress env jobId processedNotes failedNotes w =
     (if \<not> store_up env (tick w) then (Inl StoreError, advance w)
      else case jobs_table w jobId of
             None \<Rightarrow> (Inr (), advance w)
           | Some job \<Rightarrow>
               let job' = job\<lparr>j_processed_notes := processedNotes, j_failed_notes := failedNotes\<rparr>
               in (Inr (), emit (JobState job') ((advance w)\<lparr>jobs_table := (jobs_table w)(jobId \<mapsto> job')\<rparr>)))"

text \<open>\<open>UPDATE indexing_jobs SET status = $2, completed_at = NOW() WHERE id = $1\<close>.\<close>

definition completeJob :: "env \<Rightarrow> nat \<Rightarrow> job_status \<Rightarrow> unit async" where
  "completeJob env jobId status w =
     (if \<not> store_up env (tick w) then (Inl StoreError, advance w)
      else case jobs_table w jobId of
             None \<Rightarrow> (Inr (), advance w)
           | Some job \<Rightarrow>
               let job' = job\<lparr>j_status := status, j_completed_at := Some (store_now env (tick w))\<rparr>
               in (Inr (), emit (JobState job') ((advance w)\<lparr>jobs_table := (jobs_table w)(jobId \<mapsto> job')\<rparr>)))"

text \<open>\<open>vectorSearch\<close> and \<open>textSearch\<close>: one query each, its score kept in the result.\<close>

definition vectorSearch :: "env \<Rightarrow> embedding \<Rightarrow> int \<Rightarrow> SearchResult list async" where
  "vectorSearch env embedding limit w =
     (if store_up env (tick w) then (Inr (vector_query env (notes_table w) embedding limit), advance w)
      else (Inl StoreError, advance w))"

definition textSearch :: "env \<Rightarrow> string \<Rightarrow> int \<Rightarrow> SearchResult list async" where
  "textSearch env query limit w =
     (if store_up env (tick w) then (Inr (text_query env (notes_table w) query limit), advance w)
      else (Inl StoreError, advance w))"

text \<open>
  \<open>hybridSearch\<close>: the query is embedded, both searches are started, and
  \<open>Promise.all\<close> rejects when one of them does; then the two lists are fused.
\<close>

definition hybridSearch :: "env \<Rightarrow> string \<Rightarrow> int \<Rightarrow> SearchResult list async" where
  "hybridSearch env query limit =
     andThen (generateEmbedding env query) (\<lambda>queryEmbedding w.
       let (vectorOutcome, w1) = vectorSearch env queryEmbedding limit w;
           (textOutcome, w2) = textSearch env query limit w1
       in case (vectorOutcome, textOutcome) of
            (Inr vectorResults, Inr textResults) \<Rightarrow> (Inr (rrf_fuse vectorResults textResults limit), w2)
          | (Inl err, _) \<Rightarrow> (Inl err, w2)
          | (_, Inl err) \<Rightarrow> (Inl err, w2))"

section \<open>Indexer\<close>

definition BATCH_SIZE :: nat where
  "BATCH_SIZE = 50"

text \<open>\<open>processNote\<close>: convert, hash, embed, store.\<close>

definition processNote :: "env \<Rightarrow> AppleNoteDetails \<Rightarrow> unit async" where
  "processNote env note =
     (let markdownContent = htmlToMarkdown env (d_content note);
          contentHash = generateContentHash env (d_content note);
          textForEmbedding = prepareTextForEmbedding (d_title note) markdownContent
      in andThen (generateEmbedding env textForEmbedding) (\<lambda>embedding.
         andThen (upsertNote env
                    \<lparr>u_apple_note_id = d_id note,
                     u_title = d_title note,
                     u_content = markdownContent,
                     u_html_content = Some (d_content note),
                     u_folder_path = Some (d_folder note),
                     u_creation_date = Some (d_creation_date note),
                     u_modification_date = Some (d_modification_date note),
                     u_content_hash = Some contentHash,
                     u_embedding = Some embedding\<rparr>) (\<lambda>row_id w. (Inr (), w))))"

text \<open>
  \<open>Promise.allSettled(batch.map(task))\<close>: every task of the batch runs and has an outcome,
  fulfilled (\<open>Inr\<close>) or rejected (\<open>Inl\<close>); a rejection stops only its own task. The tasks
  are run one after the other in batch order, which is one of the interleavings the
  event loop admits.
\<close>

fun allSettled :: "('a \<Rightarrow> unit async) \<Rightarrow> 'a list \<Rightarrow> world \<Rightarrow> (error + unit) list \<times> world" where
  "allSettled task [] w = ([], w)"
| "allSettled task (x # xs) w =
     (let (outcome, w1) = task x w;
          (outcomes, w2) = allSettled task xs w1
      in (outcome # outcomes, w2))"

text \<open>The counting loop over \<open>batchResults\<close>.\<close>

fun tally :: "(error + unit) list \<Rightarrow> nat \<times> nat \<Rightarrow> nat \<times> nat" where
  "tally [] (processedNotes, failedNotes) = (processedNotes, failedNotes)"
| "tally (result # results) (processedNotes, failedNotes) =
     (case result of
        Inr _ \<Rightarrow> tally results (Suc processedNotes, failedNotes)
      | Inl _ \<Rightarrow> tally results (processedNotes, Suc failedNotes))"

text \<open>
  The batch loop \<open>for (let i = 0; i < items.length; i += BATCH_SIZE)\<close>, which
  \<open>startFullIndexing\<close> runs over the notes with \<open>processNote\<close> and \<open>syncNotes\<close> over the
  ids to update with its own task: a batch is settled, its outcomes are counted, and the
  progress is written. It returns the two counters.
\<close>

function batchLoop ::
  "env \<Rightarrow> ('a \<Rightarrow> unit async) \<Rightarrow> nat \<Rightarrow> 'a list \<Rightarrow> nat \<Rightarrow> nat \<Rightarrow> nat \<Rightarrow> (nat \<times> nat) async" where
  "batchLoop env task jobId items i processedNotes failedNotes w =
     (if i < length items then
        (case allSettled task (js_slice items (int i) (int (i + BATCH_SIZE))) w of
           (batchResults, w1) \<Rightarrow>
             (case tally batchResults (processedNotes, failedNotes) of
                (processedNotes', failedNotes') \<Rightarrow>
                  (case updateJobProgress env jobId processedNotes' failedNotes' w1 of
                     (Inl err, w2) \<Rightarrow> (Inl err, w2)
                   | (Inr _, w2) \<Rightarrow>
                       batchLoop env task jobId items (i + BATCH_SIZE)
                         processedNotes' failedNotes' w2)))
      else (Inr (processedNotes, failedNotes), w))"
  by pat_completeness auto
termination
  by (relation "measure (\<lambda>(env, task, jobId, items, i, p, f, w). length items - i)")
     (auto simp: BATCH_SIZE_def)

definition startFullIndexing :: "env \<Rightarrow> IndexingResult async" where
  "startFullIndexing env =
     andThen (getAllNotesWithDetails env) (\<lambda>notes.
     let totalNotes = length notes in
     andThen (createIndexingJob env totalNotes) (\<lambda>jobId.
     andThen (batchLoop env (processNote env) jobId notes 0 0 0) (\<lambda>(processedNotes, failedNotes).
     let status = (if failedNotes = 0 then Completed else Completed) in
     andThen (completeJob env jobId status) (\<lambda>_ w.
       (Inr \<lparr>r_jobId = jobId, r_totalNotes = totalNotes, r_processedNotes = processedNotes,
             r_failedNotes = failedNotes, r_status = status\<rparr>, w)))))"

text \<open>
  The task of \<open>syncNotes\<close> for one id: fetch the note; if it is found and its hash is not
  the stored one, process it.
\<close>

definition syncTask :: "env \<Rightarrow> (string, string) js_map \<Rightarrow> string \<Rightarrow> unit async" where
  "syncTask env existingHashes noteId =
     andThen (getNoteDetailsById env noteId) (\<lambda>details w.
       case details of
         None \<Rightarrow> (Inr (), w)
       | Some details \<Rightarrow>
           let contentHash = generateContentHash env (d_content details);
               existingHash = map_of existingHashes noteId
           in if Some contentHash \<noteq> existingHash then processNote env details w
              else (Inr (), w))"

definition syncNotes :: "env \<Rightarrow> IndexingResult async" where
  "syncNotes env =
     andThen (getAllNotesSummary env) (\<lambda>appleSummaries.
     let appleNoteIds = set (map s_id appleSummaries) in
     andThen (getAllNoteHashes env) (\<lambda>existingHashes.
     let notesToDelete = filter (\<lambda>dbNoteId. dbNoteId \<notin> appleNoteIds) (map fst existingHashes);
         notesToUpdate =
           map (\<lambda>summary.
                  case or_null (map_of existingHashes (s_id summary)) of
                    None \<Rightarrow> s_id summary
                  | Some existingHash \<Rightarrow> s_id summary)
               appleSummaries;
         totalNotes = length notesToUpdate + length notesToDelete
     in
     andThen (createIndexingJob env totalNotes) (\<lambda>jobId.
     andThen (if length notesToDelete > 0
              then andThen (deleteNotesByAppleIds env notesToDelete) (\<lambda>_.
                   andThen (updateJobProgress env jobId (length notesToDelete) 0) (\<lambda>_ w.
                     (Inr (length notesToDelete), w)))
              else (\<lambda>w. (Inr 0, w))) (\<lambda>processedNotes.
     andThen (batchLoop env (syncTask env existingHashes) jobId notesToUpdate 0 processedNotes 0)
       (\<lambda>(processedNotes, failedNotes).
     andThen (completeJob env jobId Completed) (\<lambda>_ w.
       (Inr \<lparr>r_jobId = jobId, r_totalNotes = totalNotes, r_processedNotes = processedNotes,
             r_failedNotes = failedNotes, r_status = Completed\<rparr>, w)))))))"

section \<open>Notions used to state the properties of the fusion\<close>

text \<open>The string that identifies an item of the fusion: the title, two colons, the content.\<close>

definition item_string :: "SearchResult \<Rightarrow> string" where
  "item_string r = sr_title r @ ''::'' @ sr_content r"

text \<open>The position of the first occurrence of an element, the rank of an item in a result list.\<close>

fun indexOf :: "'a list \<Rightarrow> 'a \<Rightarrow> nat" where
  "indexOf [] x = 0"
| "indexOf (y # ys) x = (if x = y then 0 else Suc (indexOf ys x))"

text \<open>The number \<open>1 / (60 + rank)\<close>.\<close>

definition rank_term :: "nat \<Rightarrow> rat" where
  "rank_term i = double_div 1 (double_add 60 (of_nat i))"

text \<open>The sum of a list of numbers, added from left to right.\<close>

fun double_sum :: "rat list \<Rightarrow> rat" where
  "double_sum [] = 0"
| "double_sum (x # xs) = foldl double_add x xs"

text \<open>
  The reciprocal-rank terms a result list contributes to an item: one term
  \<open>1 / (60 + i)\<close> for every position \<open>i\<close> of the list whose result has the string of the
  item, in the order of the positions.
\<close>

definition rank_terms :: "SearchResult list \<Rightarrow> string \<Rightarrow> rat list" where
  "rank_terms rs key =
     map rank_term
       (filter (\<lambda>i. sr_title (rs ! i) @ ''::'' @ sr_content (rs ! i) = key) [0..<length rs])"

text \<open>The same terms, collected along the list from a starting index.\<close>

fun occ_terms :: "SearchResult list \<Rightarrow> nat \<Rightarrow> string \<Rightarrow> rat list" where
  "occ_terms [] idx key = []"
| "occ_terms (r # rs) idx key =
     (if item_string r = key then [rank_term idx] else []) @ occ_terms rs (Suc idx) key"

text \<open>
  The fusion score of an item: the sum of its terms, those of the vector list first.
\<close>

definition fusion_score :: "SearchResult list \<Rightarrow> SearchResult list \<Rightarrow> string \<Rightarrow> rat" where
  "fusion_score v t key = double_sum (rank_terms v key @ rank_terms t key)"

text \<open>
  The fusion score as the specification words it: over the lists in which the item
  appears, the sum of \<open>1 / (60 + rank)\<close>, where the rank is the position of the item in
  that list; a single term for an item of one list, the sum of both terms for an item of
  both.
\<close>

definition spec_fusion_score :: "SearchResult list \<Rightarrow> SearchResult list \<Rightarrow> string \<Rightarrow> rat" where
  "spec_fusion_score v t key =
     (let vk = map item_string v; tk = map item_string t
      in if key \<in> set vk \<and> key \<in> set tk
           then double_add (rank_term (indexOf vk key)) (rank_term (indexOf tk key))
         else if key \<in> set vk then rank_term (indexOf vk key)
         else if key \<in> set tk then rank_term (indexOf tk key)
         else 0)"


text \<open>The strings of the items of the two result lists.\<close>

definition item_strings :: "SearchResult list \<Rightarrow> SearchResult list \<Rightarrow> string set" where
  "item_strings v t = item_string ` (set v \<union> set t)"

text \<open>
  The number of elements of \<open>slice(0, limit)\<close> of an array of \<open>n\<close> elements: a negative
  limit counts from the end.
\<close>

definition kept :: "nat \<Rightarrow> int \<Rightarrow> nat" where
  "kept n limit = (if limit < 0 then nat (int n + limit) else min (nat limit) n)"

text \<open>The key order of a \<open>Map\<close> after \<open>set\<close>: a new key goes to the end.\<close>

definition add_key :: "'k list \<Rightarrow> 'k \<Rightarrow> 'k list" where
  "add_key ks k = (if k \<in> set ks then ks else ks @ [k])"

text \<open>Every entry of the \<open>scores\<close> map is stored under the string of its own title and content.\<close>

definition key_of_entry :: "ScoreEntry \<Rightarrow> string" where
  "key_of_entry e = e_title e @ ''::'' @ e_content e"

definition entry_ok :: "(string, ScoreEntry) js_map \<Rightarrow> bool" where
  "entry_ok scores = (\<forall>(k, e) \<in> set scores. key_of_entry e = k)"

text \<open>The sorted entries before truncation.\<close>

definition sorted_entries :: "SearchResult list \<Rightarrow> SearchResult list \<Rightarrow> ScoreEntry list" where
  "sorted_entries v t = array_sort compareFn (map snd (fused_scores v t))"

text \<open>
  The binary64 values are multiples of \<open>2 ^ - 1074\<close>; this is what the comparison of two
  scores by the sign of their difference needs.
\<close>

definition is_double :: "rat \<Rightarrow> bool" where
  "is_double u \<longleftrightarrow> (\<exists>k::int. u = of_int k * power_int 2 (- 1074))"

section \<open>Example inputs of the fusion\<close>

definition ex_result :: "string \<Rightarrow> SearchResult" where
  "ex_result s = \<lparr>sr_title = s, sr_content = ''body'', sr_score = None\<rparr>"

definition ex_vector :: "SearchResult list" where
  "ex_vector = [ex_result ''A'', ex_result ''B'', ex_result ''C'']"

definition ex_text :: "SearchResult list" where
  "ex_text = [ex_result ''B'', ex_result ''A'', ex_result ''D'']"

definition dup_vector :: "SearchResult list" where
  "dup_vector = [ex_result ''A'', ex_result ''A'']"

definition split_a :: SearchResult where
  "split_a = \<lparr>sr_title = ''a::b'', sr_content = ''c'', sr_score = None\<rparr>"

definition split_b :: SearchResult where
  "split_b = \<lparr>sr_title = ''a'', sr_content = ''b::c'', sr_score = None\<rparr>"

definition split_vector :: "SearchResult list" where
  "split_vector = [ex_result ''A'', split_a]"

definition split_text :: "SearchResult list" where
  "split_text = [split_b]"

section \<open>Notions used to state the properties of the indexer\<close>

text \<open>The rows of the table \<open>notes\<close> with a given external id.\<close>

definition rows_of :: "string \<Rightarrow> NoteRecord list \<Rightarrow> NoteRecord list" where
  "rows_of k rows = filter (\<lambda>row. n_apple_note_id row = Some k) rows"

text \<open>
  The external ids of the rows that have one; the constraint \<open>apple_note_id TEXT UNIQUE\<close> of
  the schema says that no id is listed twice.
\<close>

fun apple_ids :: "NoteRecord list \<Rightarrow> string list" where
  "apple_ids [] = []"
| "apple_ids (row # rows) =
     (case n_apple_note_id row of None \<Rightarrow> apple_ids rows | Some k \<Rightarrow> k # apple_ids rows)"

definition unique_apple_ids :: "NoteRecord list \<Rightarrow> bool" where
  "unique_apple_ids rows = distinct (apple_ids rows)"

text \<open>The job states among the events, oldest first: what a poller of the job can have seen.\<close>

fun job_states :: "event list \<Rightarrow> IndexingJob list" where
  "job_states [] = []"
| "job_states (e # es) = (case e of JobState j \<Rightarrow> j # job_states es | _ \<Rightarrow> job_states es)"

text \<open>A step that leaves the table of jobs and the written job states as they are.\<close>

definition jobs_frame :: "world \<Rightarrow> world \<Rightarrow> bool" where
  "jobs_frame w w' \<longleftrightarrow>
     jobs_table w' = jobs_table w \<and> jobs_id_seq w' = jobs_id_seq w
     \<and> job_states (events w') = job_states (events w)"

text \<open>The row of a job, by its counters and status.\<close>

definition job_at :: "nat \<Rightarrow> nat \<Rightarrow> nat \<Rightarrow> nat \<Rightarrow> job_status \<Rightarrow> world \<Rightarrow> bool" where
  "job_at jobId T p f st w \<longleftrightarrow>
     (\<exists>j. jobs_table w jobId = Some j \<and> j_id j = jobId \<and> j_total_notes j = T
          \<and> j_processed_notes j = p \<and> j_failed_notes j = f \<and> j_status j = st)"

text \<open>
  What a run has written since the world \<open>w0\<close>: states of its own job only, each with
  the total of the job and with \<open>processed + failed\<close> within it, none of them failed;
  the rows of the other jobs are as they were.
\<close>

definition job_run :: "nat \<Rightarrow> nat \<Rightarrow> world \<Rightarrow> world \<Rightarrow> bool" where
  "job_run jobId T w0 w \<longleftrightarrow>
     (\<exists>new. job_states (events w) = job_states (events w0) @ new
        \<and> (\<forall>j \<in> set new. j_id j = jobId \<and> j_total_notes j = T
              \<and> j_processed_notes j + j_failed_notes j \<le> T \<and> j_status j \<noteq> Failed))
     \<and> (\<forall>k. k \<noteq> jobId \<longrightarrow> jobs_table w k = jobs_table w0 k)"

text \<open>What the batch loop leaves of the job.\<close>

definition loop_post ::
  "nat \<Rightarrow> nat \<Rightarrow> nat \<Rightarrow> world \<Rightarrow> error + nat \<times> nat \<Rightarrow> world \<Rightarrow> bool" where
  "loop_post jobId T F w0 r w \<longleftrightarrow>
     job_run jobId T w0 w
     \<and> (\<exists>p f. job_at jobId T p f Running w \<and> p + f \<le> T
            \<and> (\<not> isl r \<longrightarrow> r = Inr (p, f) \<and> p + f = T \<and> f \<le> F))"

text \<open>
  How a run over \<open>T\<close> notes ends: either before its job was created, with an error and
  the jobs as they were; or with an error and its job still running; or with its result
  and its job completed, every note counted and at most \<open>F\<close> of them failed.
\<close>

definition run_outcome :: "nat \<Rightarrow> nat \<Rightarrow> world \<Rightarrow> error + IndexingResult \<Rightarrow> world \<Rightarrow> bool" where
  "run_outcome T F w r w' \<longleftrightarrow>
     (isl r \<and> jobs_table w' = jobs_table w \<and> job_states (events w') = job_states (events w))
   \<or> (\<exists>jobId p f. jobs_table w jobId = None \<and> job_run jobId T w w' \<and> p + f \<le> T
         \<and> ((isl r \<and> job_at jobId T p f Running w')
            \<or> (r = Inr \<lparr>r_jobId = jobId, r_totalNotes = T, r_processedNotes = p,
                         r_failedNotes = f, r_status = Completed\<rparr>
                \<and> job_at jobId T p f Completed w' \<and> p + f = T \<and> f \<le> F)))"

text \<open>
  The block \<open>if (notesToDelete.length > 0) { ... }\<close> of \<open>syncNotes\<close>, as a function that
  returns the new value of \<open>processedNotes\<close>.
\<close>

definition sync_delete_step :: "env \<Rightarrow> nat \<Rightarrow> string list \<Rightarrow> nat async" where
  "sync_delete_step env jobId del =
     (if length del > 0
      then andThen (deleteNotesByAppleIds env del) (\<lambda>_.
           andThen (updateJobProgress env jobId (length del) 0) (\<lambda>_ w. (Inr (length del), w)))
      else (\<lambda>w. (Inr 0, w)))"

text \<open>The deletion set of \<open>syncNotes\<close>: the ids of the hash map that no summary has.\<close>

definition sync_deleted :: "AppleNoteSummary list \<Rightarrow> (string, string) js_map \<Rightarrow> string list" where
  "sync_deleted ss hashes = filter (\<lambda>k. k \<notin> set (map s_id ss)) (map fst hashes)"

text \<open>The note source answers a fetch by id with the note of that id.\<close>

definition source_consistent :: "env \<Rightarrow> bool" where
  "source_consistent env \<longleftrightarrow>
     (\<forall>t noteId details. jxa_details_by_id env t noteId = Inr (Some details) \<longrightarrow> d_id details = noteId)"

text \<open>The table of notes without the rows of the given external ids.\<close>

definition without_ids :: "string list \<Rightarrow> NoteRecord list \<Rightarrow> NoteRecord list" where
  "without_ids ids rows = filter (\<lambda>row. \<not> (\<exists>k \<in> set ids. n_apple_note_id row = Some k)) rows"

text \<open>The number of calls of the embedding service and the number of upserts among events.\<close>

definition embed_calls :: "event list \<Rightarrow> nat" where
  "embed_calls evs = length (filter (\<lambda>e. case e of EmbedCall _ \<Rightarrow> True | _ \<Rightarrow> False) evs)"

definition upsert_calls :: "event list \<Rightarrow> nat" where
  "upsert_calls evs = length (filter (\<lambda>e. case e of UpsertCall _ \<Rightarrow> True | _ \<Rightarrow> False) evs)"

text \<open>
  A step from one world to a later one that records at most \<open>n\<close> calls of the embedding
  service, all of texts in \<open>E\<close>, and at most \<open>n\<close> upserts, all of ids in \<open>U\<close>.
\<close>

definition allowed :: "(string \<Rightarrow> bool) \<Rightarrow> (string \<Rightarrow> bool) \<Rightarrow> event \<Rightarrow> bool" where
  "allowed E U e = (case e of EmbedCall text \<Rightarrow> E text | UpsertCall k \<Rightarrow> U k | JobState _ \<Rightarrow> True)"

definition calls_within ::
  "(string \<Rightarrow> bool) \<Rightarrow> (string \<Rightarrow> bool) \<Rightarrow> nat \<Rightarrow> world \<Rightarrow> world \<Rightarrow> bool" where
  "calls_within E U n w w' \<longleftrightarrow>
     (\<exists>new. events w' = events w @ new \<and> embed_calls new \<le> n \<and> upsert_calls new \<le> n
        \<and> (\<forall>e \<in> set new. allowed E U e))"

text \<open>The embedding text of a note, as \<open>processNote\<close> computes it.\<close>

definition embedding_text :: "env \<Rightarrow> AppleNoteDetails \<Rightarrow> string" where
  "embedding_text env note =
     prepareTextForEmbedding (d_title note) (htmlToMarkdown env (d_content note))"

text \<open>
  Whenever the note is fetched it is found, and its fresh hash is the hash that the store
  holds for it at the start of the sync.
\<close>

definition unchanged_in :: "env \<Rightarrow> world \<Rightarrow> string \<Rightarrow> bool" where
  "unchanged_in env w0 noteId \<longleftrightarrow>
     (\<forall>t. \<exists>d. jxa_details_by_id env t noteId = Inr (Some d)
            \<and> map_of (note_hashes (notes_table w0) []) noteId
                = Some (generateContentHash env (d_content d)))"

text \<open>Whenever the note is fetched, the note source returns not-found.\<close>

definition never_found :: "env \<Rightarrow> string \<Rightarrow> bool" where
  "never_found env noteId \<longleftrightarrow> (\<forall>t. jxa_details_by_id env t noteId = Inr None)"

section \<open>Example runs of the indexer\<close>

text \<open>
  A note source that lists five notes for the full index, with an embedding service that
  fails on the third and a store that is reachable. For the sync that follows it lists
  the notes \<open>n1\<close>, \<open>n2\<close>, \<open>n5\<close> and a new note \<open>n6\<close>, and no longer finds \<open>n5\<close> when its
  body is fetched. \<open>fault_env\<close> is the same with a store that becomes unreachable after
  the job has been created; \<open>indexed_world\<close> is the world after the full index.
\<close>

definition ex_note :: "string \<Rightarrow> AppleNoteDetails" where
  "ex_note s = \<lparr>d_id = s, d_title = s, d_content = ''<p>'' @ s @ ''</p>'', d_folder = ''Notes'',
     d_creation_date = ''2024-01-01T00:00:00.000Z'',
     d_modification_date = ''2024-01-02T00:00:00.000Z''\<rparr>"

definition ex_summary :: "string \<Rightarrow> AppleNoteSummary" where
  "ex_summary s = \<lparr>s_id = s, s_title = s, s_folder = ''Notes'',
     s_modification_date = ''2024-01-02T00:00:00.000Z''\<rparr>"

definition ex_env :: env where
  "ex_env = \<lparr>jxa_summaries = (\<lambda>t. Inr (map ex_summary [''n1'', ''n2'', ''n5'', ''n6''])),
     jxa_details_by_id = (\<lambda>t n. if n = ''n5'' then Inr None else Inr (Some (ex_note n))),
     jxa_all_details = (\<lambda>t. Inr (map ex_note [''n1'', ''n2'', ''n3'', ''n4'', ''n5''])),
     extractor = (\<lambda>t text. if take 2 text = ''n3'' then Inl EmbeddingError else Inr [1]),
     store_up = (\<lambda>t. True), store_now = (\<lambda>t. 100 + t),
     vector_query = (\<lambda>rows e l. []), text_query = (\<lambda>rows q l. []),
     sha256_hex = (\<lambda>s. ''00'' @ s), turndown = (\<lambda>h. Inr h)\<rparr>"


definition empty_world :: world where
  "empty_world = \<lparr>tick = 0, notes_table = [], notes_id_seq = 0, jobs_table = (\<lambda>k. None),
     jobs_id_seq = 0, events = []\<rparr>"

definition indexed_world :: world where
  "indexed_world = snd (startFullIndexing ex_env empty_world)"

definition ex_upsert :: UpsertArgs where
  "ex_upsert = \<lparr>u_apple_note_id = ''n1'', u_title = ''Title'', u_content = ''text'',
     u_html_content = Some ''<p>text</p>'', u_folder_path = Some ''Notes'',
     u_creation_date = Some ''2024-01-01T00:00:00.000Z'',
     u_modification_date = Some ''2024-01-02T00:00:00.000Z'',
     u_content_hash = Some ''00ff'', u_embedding = Some [1]\<rparr>"


section \<open>Properties of the fusion\<close>

subsection \<open>Rounding\<close>


lemma round_half_even_ge: "\<lfloor>m\<rfloor> \<le> round_half_even m"
  by (simp add: round_half_even_def Let_def)

lemma round_half_even_nonneg: "0 \<le> m \<Longrightarrow> 0 \<le> round_half_even m"
  using round_half_even_ge [of m] by (simp add: order_trans [of 0 "\<lfloor>m\<rfloor>"])

lemma round_half_even_pos: "1 \<le> m \<Longrightarrow> 1 \<le> round_half_even m"
proof -
  assume "1 \<le> m"
  then have "1 \<le> \<lfloor>m\<rfloor>" by simp
  then show ?thesis using round_half_even_ge [of m] by linarith
qed

lemma pow2_pos: "0 < power_int (2::rat) e"
  by (simp add: zero_less_power_int)

lemma round_double_nonneg: "0 \<le> x \<Longrightarrow> 0 \<le> round_double x"
proof -
  assume x: "0 \<le> x"
  show ?thesis
  proof (cases "x = 0")
    case True
    then show ?thesis by (simp add: round_double_def)
  next
    case False
    define q where "q = max (binary_exponent \<bar>x\<bar>) (- 1022) - 52"
    have "0 \<le> \<bar>x\<bar> / power_int 2 q"
      using pow2_pos [of q] by simp
    then have "0 \<le> round_half_even (\<bar>x\<bar> / power_int 2 q)"
      by (rule round_half_even_nonneg)
    then have "(0::rat) \<le> of_int (round_half_even (\<bar>x\<bar> / power_int 2 q)) * power_int 2 q"
      using pow2_pos [of q] by simp
    then show ?thesis
      using x False by (simp add: round_double_def Let_def q_def)
  qed
qed

lemma round_double_minus: "round_double (- x) = - round_double x"
  by (simp add: round_double_def Let_def)

lemma round_double_nonpos: "x \<le> 0 \<Longrightarrow> round_double x \<le> 0"
  using round_double_nonneg [of "- x"] by (simp add: round_double_minus)

lemma binary_exponent_lower:
  assumes "0 < x"
  shows "power_int 2 (binary_exponent x - 2) \<le> x"
proof -
  obtain p q where pq: "quotient_of x = (p, q)" by (cases "quotient_of x")
  have q: "0 < q" using pq by (rule quotient_of_denom_pos)
  have x: "x = of_int p / of_int q" using pq by (rule quotient_of_div)
  have p: "0 < p"
    using assms q by (simp add: x zero_less_divide_iff)
  define d where "d = bitlen p - bitlen q"
  have e: "binary_exponent x \<le> d"
    by (simp add: binary_exponent_def pq d_def Let_def)
  have bp: "1 \<le> bitlen p" using p bitlen_eq_zero_iff [of p] bitlen_nonneg [of p] by linarith
  have bq: "1 \<le> bitlen q" using q bitlen_eq_zero_iff [of q] bitlen_nonneg [of q] by linarith
  have lo: "(2::int) ^ nat (bitlen p - 1) \<le> p" using bitlen_bounds [OF p] by simp
  have hi: "q < 2 ^ nat (bitlen q)" using bitlen_bounds [OF q] by simp
  have lo': "power_int (2::rat) (bitlen p - 1) \<le> of_int p"
  proof -
    have "(of_int (2 ^ nat (bitlen p - 1)) :: rat) \<le> of_int p"
      using lo by (simp only: of_int_le_iff)
    then show ?thesis using bp by (simp add: power_int_def)
  qed
  have hi': "(of_int q :: rat) \<le> power_int 2 (bitlen q)"
  proof -
    have "(of_int q :: rat) \<le> of_int (2 ^ nat (bitlen q))"
      using hi by (simp only: of_int_le_iff)
    then show ?thesis using bq by (simp add: power_int_def)
  qed
  have "d - 1 = (bitlen p - 1) - bitlen q"
    by (simp add: d_def)
  then have "power_int (2::rat) (d - 1) = power_int 2 ((bitlen p - 1) - bitlen q)"
    by (rule arg_cong)
  also have "\<dots> = power_int 2 (bitlen p - 1) / power_int 2 (bitlen q)"
    by (rule power_int_diff) simp
  also have "\<dots> \<le> of_int p / power_int 2 (bitlen q)"
    using lo' pow2_pos [of "bitlen q"] by (simp add: divide_right_mono)
  also have "\<dots> \<le> of_int p / of_int q"
    using hi' p q by (simp add: divide_left_mono)
  finally have "power_int (2::rat) (d - 1) \<le> x" by (simp add: x)
  moreover have "power_int (2::rat) (binary_exponent x - 2) \<le> power_int 2 (d - 1)"
    using e by (intro power_int_increasing) simp_all
  ultimately show ?thesis by simp
qed

lemma round_double_pos:
  assumes "power_int 2 (- 1074) \<le> x"
  shows "0 < round_double x"
proof -
  have x: "0 < x" using assms pow2_pos [of "- 1074"] by simp
  define q where "q = max (binary_exponent \<bar>x\<bar>) (- 1022) - 52"
  have "power_int 2 q \<le> x"
  proof (cases "binary_exponent x \<le> - 1022")
    case True
    then have "q = - 1074" using x by (simp add: q_def)
    then show ?thesis using assms by simp
  next
    case False
    then have "q = binary_exponent x - 52" using x by (simp add: q_def)
    then have "power_int (2::rat) q \<le> power_int 2 (binary_exponent x - 2)"
      by (intro power_int_increasing) simp_all
    then show ?thesis using binary_exponent_lower [OF x] by simp
  qed
  then have "1 \<le> \<bar>x\<bar> / power_int 2 q"
    using x pow2_pos [of q] by (simp add: le_divide_eq)
  then have "1 \<le> round_half_even (\<bar>x\<bar> / power_int 2 q)"
    by (rule round_half_even_pos)
  then have "(0::rat) < of_int (round_half_even (\<bar>x\<bar> / power_int 2 q)) * power_int 2 q"
    using pow2_pos [of q] by simp
  then show ?thesis
    using x by (simp add: round_double_def Let_def q_def)
qed

lemma is_double_round_double: "is_double (round_double x)"
proof (cases "x = 0")
  case True
  then show ?thesis
    by (auto simp: round_double_def is_double_def intro: exI [of _ 0])
next
  case False
  define q where "q = max (binary_exponent \<bar>x\<bar>) (- 1022) - 52"
  define r where "r = round_half_even (\<bar>x\<bar> / power_int 2 q)"
  have q: "0 \<le> q + 1074" by (simp add: q_def)
  have "power_int (2::rat) q = power_int 2 ((q + 1074) + (- 1074))" by simp
  also have "\<dots> = power_int 2 (q + 1074) * power_int 2 (- 1074)"
    by (rule power_int_add) simp
  also have "power_int (2::rat) (q + 1074) = of_int (2 ^ nat (q + 1074))"
    using q by (simp add: power_int_def)
  finally have pq: "power_int (2::rat) q = of_int (2 ^ nat (q + 1074)) * power_int 2 (- 1074)" .
  have "round_double x = sgn x * (of_int r * power_int 2 q)"
    using False by (simp add: round_double_def Let_def q_def r_def)
  also have "sgn x = of_int (sgn (if 0 < x then 1 else - 1))"
    using False by (simp add: sgn_if)
  finally have "round_double x
      = of_int (sgn (if 0 < x then 1 else - 1) * r * 2 ^ nat (q + 1074)) * power_int 2 (- 1074)"
    by (simp only: pq of_int_mult mult.assoc)
  then show ?thesis
    unfolding is_double_def by (rule exI)
qed

lemma double_sub_sign:
  assumes "is_double u" "is_double v"
  shows "double_sub v u \<le> 0 \<longleftrightarrow> v \<le> u"
proof (cases "v \<le> u")
  case True
  then have "round_double (v - u) \<le> 0" by (intro round_double_nonpos) simp
  with True show ?thesis by (simp add: double_sub_def)
next
  case False
  from assms obtain k l :: int where
    u: "u = of_int k * power_int 2 (- 1074)" and v: "v = of_int l * power_int 2 (- 1074)"
    by (auto simp: is_double_def)
  have "k < l"
    using False pow2_pos [of "- 1074"] by (simp add: u v)
  then have "(1::rat) \<le> of_int (l - k)" by (simp del: of_int_diff)
  then have "1 * power_int 2 (- 1074) \<le> (of_int (l - k) :: rat) * power_int 2 (- 1074)"
    using pow2_pos [of "- 1074"] by (intro mult_right_mono) simp_all
  then have "power_int 2 (- 1074) \<le> v - u"
    by (simp add: u v algebra_simps)
  then have "0 < round_double (v - u)" by (rule round_double_pos)
  with False show ?thesis by (simp add: double_sub_def)
qed
subsection \<open>The \<open>scores\<close> map\<close>

lemma fusion_key_item_string: "fusion_key r = item_string r"
  by (simp add: fusion_key_def item_string_def)

lemma map_of_map_set: "map_of (map_set k v ps) = (map_of ps)(k \<mapsto> v)"
  by (induction ps) (auto simp: fun_eq_iff)

lemma keys_map_set: "map fst (map_set k v ps) = add_key (map fst ps) k"
  by (induction ps) (force simp: add_key_def)+

lemma set_map_set_subset: "set (map_set k v ps) \<subseteq> insert (k, v) (set ps)"
  by (induction ps) (auto split: if_splits)

lemma keys_accumulate: "map fst (accumulate scores r idx) = add_key (map fst scores) (item_string r)"
  by (simp add: accumulate_def Let_def keys_map_set fusion_key_item_string split: option.splits)

lemma keys_forEach:
  "map fst (forEach accumulate rs idx scores) = foldl add_key (map fst scores) (map item_string rs)"
  by (induction rs arbitrary: idx scores) (simp_all add: keys_accumulate)

lemma distinct_add_key: "distinct ks \<Longrightarrow> distinct (add_key ks k)"
  by (simp add: add_key_def)

lemma distinct_foldl_add_key: "distinct ks \<Longrightarrow> distinct (foldl add_key ks xs)"
  by (induction xs arbitrary: ks) (simp_all add: distinct_add_key)

lemma set_foldl_add_key: "set (foldl add_key ks xs) = set ks \<union> set xs"
  by (induction xs arbitrary: ks) (auto simp: add_key_def)



lemma nth_indexOf: "a \<in> set xs \<Longrightarrow> xs ! indexOf xs a = a"
  by (induction xs) auto



lemma map_of_accumulate:
  "map_of (accumulate scores r idx) =
     (map_of scores)(item_string r \<mapsto>
        (case map_of scores (item_string r) of
           Some existing \<Rightarrow> existing\<lparr>e_score := double_add (e_score existing) (rank_term idx)\<rparr>
         | None \<Rightarrow> \<lparr>e_score = rank_term idx, e_title = sr_title r, e_content = sr_content r\<rparr>))"
  by (simp add: accumulate_def Let_def map_of_map_set fusion_key_item_string rank_term_def
      rrf_k_def split: option.splits)

lemma map_of_forEach:
  "map_of (forEach accumulate rs idx scores) key =
     (case map_of scores key of
        Some e \<Rightarrow> Some (e\<lparr>e_score := foldl double_add (e_score e) (occ_terms rs idx key)\<rparr>)
      | None \<Rightarrow>
          (case find (\<lambda>r. item_string r = key) rs of
             None \<Rightarrow> None
           | Some r \<Rightarrow> Some \<lparr>e_score = double_sum (occ_terms rs idx key),
                               e_title = sr_title r, e_content = sr_content r\<rparr>))"
proof (induction rs arbitrary: idx scores)
  case Nil
  then show ?case by (simp split: option.splits)
next
  case (Cons r rs)
  show ?case
    by (simp add: Cons.IH map_of_accumulate split: option.splits)
qed

lemma occ_terms_shift:
  "occ_terms rs idx key =
     map (\<lambda>i. rank_term (idx + i)) (filter (\<lambda>i. item_string (rs ! i) = key) [0..<length rs])"
proof (induction rs arbitrary: idx)
  case Nil
  then show ?case by simp
next
  case (Cons r rs)
  have up: "[0..<length (r # rs)] = 0 # map Suc [0..<length rs]"
    by (simp add: upt_conv_Cons map_Suc_upt del: upt_Suc)
  show ?case
    unfolding up by (simp add: Cons.IH filter_map comp_def)
qed

lemma occ_terms_rank_terms: "occ_terms rs 0 key = rank_terms rs key"
  by (simp add: occ_terms_shift rank_terms_def item_string_def)

lemma occ_terms_absent:
  "find (\<lambda>r. item_string r = key) rs = None \<Longrightarrow> occ_terms rs idx key = []"
  by (induction rs arbitrary: idx) (auto split: if_splits)

lemma occ_terms_present:
  "find (\<lambda>r. item_string r = key) rs = Some r \<Longrightarrow> occ_terms rs idx key \<noteq> []"
  by (induction rs arbitrary: idx) (auto split: if_splits)

lemma rank_terms_absent:
  "find (\<lambda>r. item_string r = key) rs = None \<Longrightarrow> rank_terms rs key = []"
  using occ_terms_absent [of key rs 0] by (simp add: occ_terms_rank_terms)

lemma rank_terms_present:
  "find (\<lambda>r. item_string r = key) rs = Some r \<Longrightarrow> rank_terms rs key \<noteq> []"
  using occ_terms_present [of key rs r 0] by (simp add: occ_terms_rank_terms)

lemma foldl_double_sum: "xs \<noteq> [] \<Longrightarrow> foldl double_add (double_sum xs) ys = double_sum (xs @ ys)"
  by (cases xs) simp_all

lemma find_app:
  "find P (xs @ ys) = (case find P xs of None \<Rightarrow> find P ys | Some x \<Rightarrow> Some x)"
  by (induction xs) auto

lemma map_of_fused:
  "map_of (fused_scores v t) key =
     (case find (\<lambda>r. item_string r = key) (v @ t) of
        None \<Rightarrow> None
      | Some r \<Rightarrow> Some \<lparr>e_score = fusion_score v t key,
                          e_title = sr_title r, e_content = sr_content r\<rparr>)"
proof (cases "find (\<lambda>r. item_string r = key) v")
  case None
  then show ?thesis
    by (simp add: fused_scores_def map_of_forEach occ_terms_rank_terms find_app rank_terms_absent
        fusion_score_def split: option.splits)
next
  case (Some r)
  then have "rank_terms v key \<noteq> []" by (rule rank_terms_present)
  then show ?thesis
    using Some
    by (simp add: fused_scores_def map_of_forEach occ_terms_rank_terms find_app foldl_double_sum
        fusion_score_def)
qed

lemma entry_ok_accumulate: "entry_ok scores \<Longrightarrow> entry_ok (accumulate scores r idx)"
proof -
  assume ok: "entry_ok scores"
  show ?thesis
  proof (cases "map_of scores (fusion_key r)")
    case None
    then show ?thesis
      using ok set_map_set_subset [of "fusion_key r" _ scores]
      by (fastforce simp: accumulate_def Let_def entry_ok_def fusion_key_def key_of_entry_def)
  next
    case (Some e)
    then have "(fusion_key r, e) \<in> set scores" by (rule map_of_SomeD)
    with ok have "key_of_entry e = fusion_key r"
      by (auto simp: entry_ok_def)
    then show ?thesis
      using ok Some set_map_set_subset [of "fusion_key r" _ scores]
      by (fastforce simp: accumulate_def Let_def entry_ok_def key_of_entry_def)
  qed
qed

lemma entry_ok_forEach: "entry_ok scores \<Longrightarrow> entry_ok (forEach accumulate rs idx scores)"
  by (induction rs arbitrary: idx scores) (simp_all add: entry_ok_accumulate)

lemma entry_ok_fused: "entry_ok (fused_scores v t)"
  unfolding fused_scores_def by (intro entry_ok_forEach) (simp add: entry_ok_def)

lemma keys_fused: "map fst (fused_scores v t) = foldl add_key [] (map item_string (v @ t))"
  by (simp add: fused_scores_def keys_forEach)

lemma distinct_keys_fused: "distinct (map fst (fused_scores v t))"
  by (simp add: keys_fused distinct_foldl_add_key del: map_append)

lemma set_keys_fused: "set (map fst (fused_scores v t)) = item_strings v t"
  by (auto simp: keys_fused set_foldl_add_key item_strings_def simp del: map_append)

lemma entry_keys_fused: "map key_of_entry (map snd (fused_scores v t)) = map fst (fused_scores v t)"
  using entry_ok_fused [of v t]
  by (auto simp: entry_ok_def)

lemma item_string_to_result: "item_string (to_result e) = key_of_entry e"
  by (simp add: item_string_def to_result_def key_of_entry_def)

lemma entry_fused:
  assumes "e \<in> set (map snd (fused_scores v t))"
  shows "\<exists>r. find (\<lambda>r. item_string r = key_of_entry e) (v @ t) = Some r
           \<and> e = \<lparr>e_score = fusion_score v t (key_of_entry e),
                   e_title = sr_title r, e_content = sr_content r\<rparr>"
proof -
  from assms obtain k where ke: "(k, e) \<in> set (fused_scores v t)" by auto
  with entry_ok_fused [of v t] have k: "k = key_of_entry e"
    by (auto simp: entry_ok_def)
  from ke distinct_keys_fused [of v t] have "map_of (fused_scores v t) k = Some e"
    by simp
  then show ?thesis
    unfolding k by (auto simp: map_of_fused split: option.splits)
qed

lemma entry_score_fused:
  assumes "e \<in> set (map snd (fused_scores v t))"
  shows "e_score e = fusion_score v t (key_of_entry e)"
proof -
  from entry_fused [OF assms] obtain r where
    "find (\<lambda>r. item_string r = key_of_entry e) (v @ t) = Some r
       \<and> e = \<lparr>e_score = fusion_score v t (key_of_entry e),
               e_title = sr_title r, e_content = sr_content r\<rparr>" ..
  then have "e = \<lparr>e_score = fusion_score v t (key_of_entry e),
          e_title = sr_title r, e_content = sr_content r\<rparr>" ..
  then have "e_score e = e_score \<lparr>e_score = fusion_score v t (key_of_entry e),
          e_title = sr_title r, e_content = sr_content r\<rparr>" by (rule arg_cong)
  then show ?thesis by simp
qed

lemma occ_terms_not_mem: "key \<notin> item_string ` set rs \<Longrightarrow> occ_terms rs idx key = []"
  by (induction rs arbitrary: idx) auto

lemma occ_terms_distinct:
  "distinct (map item_string rs) \<Longrightarrow>
   occ_terms rs idx key =
     (if key \<in> set (map item_string rs)
      then [rank_term (idx + indexOf (map item_string rs) key)] else [])"
proof (induction rs arbitrary: idx)
  case Nil
  then show ?case by simp
next
  case (Cons r rs)
  then show ?case
    by (auto simp: occ_terms_not_mem)
qed

lemma rank_terms_distinct:
  "distinct (map item_string rs) \<Longrightarrow>
   rank_terms rs key =
     (if key \<in> set (map item_string rs)
      then [rank_term (indexOf (map item_string rs) key)] else [])"
  using occ_terms_distinct [of rs 0 key] by (simp add: occ_terms_rank_terms)

lemma spec_fusion_score_distinct:
  assumes "distinct (map item_string v)" "distinct (map item_string t)"
  shows "spec_fusion_score v t key = fusion_score v t key"
  using assms by (simp add: spec_fusion_score_def fusion_score_def Let_def rank_terms_distinct)

lemma length_foldl_add_key: "length (foldl add_key ks xs) \<le> length ks + length xs"
proof (induction xs arbitrary: ks)
  case Nil
  then show ?case by simp
next
  case (Cons x xs)
  have "length (foldl add_key (add_key ks x) xs) \<le> length (add_key ks x) + length xs"
    by (rule Cons.IH)
  also have "\<dots> \<le> length ks + length (x # xs)"
    by (simp add: add_key_def)
  finally show ?case by simp
qed

lemma length_fused: "length (fused_scores v t) \<le> length v + length t"
proof -
  have "length (map fst (fused_scores v t)) \<le> length v + length t"
    unfolding keys_fused using length_foldl_add_key [of "[]" "map item_string (v @ t)"] by simp
  then show ?thesis by simp
qed

lemma card_item_strings: "card (item_strings v t) = length (fused_scores v t)"
proof -
  have "card (set (map fst (fused_scores v t))) = length (map fst (fused_scores v t))"
    using distinct_keys_fused by (rule distinct_card)
  then show ?thesis by (simp only: set_keys_fused length_map)
qed

subsection \<open>Sorting and truncation\<close>

lemma is_double_rank_term: "is_double (rank_term i)"
  by (simp add: rank_term_def double_div_def is_double_round_double)

lemma is_double_foldl: "is_double x \<Longrightarrow> is_double (foldl double_add x xs)"
  by (induction xs arbitrary: x) (simp_all add: double_add_def is_double_round_double)

lemma is_double_zero: "is_double 0"
  unfolding is_double_def by (rule exI [of _ 0]) simp

lemma is_double_fusion_score: "is_double (fusion_score v t key)"
proof (cases "rank_terms v key @ rank_terms t key")
  case Nil
  then show ?thesis by (simp add: fusion_score_def is_double_zero)
next
  case (Cons x xs)
  then have "x \<in> set (rank_terms v key @ rank_terms t key)" by simp
  then have "is_double x"
    by (auto simp: rank_terms_def is_double_rank_term)
  then show ?thesis
    by (simp add: fusion_score_def Cons is_double_foldl)
qed

lemma sort_insert_insort_key:
  "\<forall>e \<in> set (x # ys). is_double (e_score e) \<Longrightarrow>
   sort_insert compareFn x ys = insort_key (\<lambda>e. - e_score e) x ys"
  by (induction ys) (auto simp: compareFn_def double_sub_sign)

lemma array_sort_sort_key:
  "\<forall>e \<in> set xs. is_double (e_score e) \<Longrightarrow>
   array_sort compareFn xs = sort_key (\<lambda>e. - e_score e) xs"
proof (induction xs)
  case Nil
  then show ?case by (simp add: array_sort_def)
next
  case (Cons x xs)
  have "array_sort compareFn (x # xs) = sort_insert compareFn x (array_sort compareFn xs)"
    by (simp add: array_sort_def)
  also have "\<dots> = sort_insert compareFn x (sort_key (\<lambda>e. - e_score e) xs)"
    using Cons by simp
  also have "\<dots> = insort_key (\<lambda>e. - e_score e) x (sort_key (\<lambda>e. - e_score e) xs)"
    using Cons.prems by (intro sort_insert_insort_key) simp
  finally show ?case by (simp add: sort_key_def)
qed

lemma sorted_entries_sort_key:
  "sorted_entries v t = sort_key (\<lambda>e. - e_score e) (map snd (fused_scores v t))"
  unfolding sorted_entries_def
proof (rule array_sort_sort_key, rule ballI)
  fix e assume "e \<in> set (map snd (fused_scores v t))"
  then have "e_score e = fusion_score v t (key_of_entry e)" by (rule entry_score_fused)
  then show "is_double (e_score e)" by (simp add: is_double_fusion_score)
qed

lemma js_slice_prefix:
  "js_slice xs 0 limit =
     take (nat (if limit < 0 then int (length xs) + limit else limit)) xs"
  by (auto simp: js_slice_def Let_def min_def max_def)

lemma js_slice_all: "int (length xs) \<le> limit \<Longrightarrow> js_slice xs 0 limit = xs"
  by (simp add: js_slice_prefix)

lemma length_sorted_entries: "length (sorted_entries v t) = card (item_strings v t)"
  by (simp add: sorted_entries_sort_key card_item_strings)

lemma rrf_fuse_take:
  "rrf_fuse v t limit
     = map to_result (take (kept (card (item_strings v t)) limit) (sorted_entries v t))"
proof -
  have "rrf_fuse v t limit
      = map to_result (take (nat (if limit < 0 then int (length (sorted_entries v t)) + limit
                                    else limit)) (sorted_entries v t))"
    by (simp add: rrf_fuse_def sorted_entries_def js_slice_prefix)
  also have "take (nat (if limit < 0 then int (length (sorted_entries v t)) + limit else limit))
               (sorted_entries v t)
           = take (kept (length (sorted_entries v t)) limit) (sorted_entries v t)"
    by (simp add: kept_def min_def)
  finally show ?thesis by (simp only: length_sorted_entries)
qed


lemma rrf_fuse_all:
  "int (length v) + int (length t) \<le> limit \<Longrightarrow>
   rrf_fuse v t limit = map to_result (sorted_entries v t)"
proof -
  assume "int (length v) + int (length t) \<le> limit"
  with length_fused [of v t]
  have "length (sorted_entries v t) \<le> kept (card (item_strings v t)) limit"
    by (simp add: length_sorted_entries card_item_strings kept_def)
  then show ?thesis
    by (simp add: rrf_fuse_take)
qed

lemma set_sorted_entries: "set (sorted_entries v t) = snd ` set (fused_scores v t)"
  by (simp add: sorted_entries_sort_key)

lemma keys_sorted_entries: "key_of_entry ` set (sorted_entries v t) = item_strings v t"
proof -
  have "key_of_entry ` set (sorted_entries v t) = set (map key_of_entry (map snd (fused_scores v t)))"
    by (simp add: set_sorted_entries image_image)
  then show ?thesis
    by (simp only: entry_keys_fused set_keys_fused)
qed

lemma inj_key_fused: "inj_on key_of_entry (set (map snd (fused_scores v t)))"
proof -
  have "distinct (map key_of_entry (map snd (fused_scores v t)))"
    by (simp only: entry_keys_fused distinct_keys_fused)
  then show ?thesis
    by (simp only: distinct_map)
qed

lemma distinct_fused_entries: "distinct (map snd (fused_scores v t))"
proof -
  have "distinct (map key_of_entry (map snd (fused_scores v t)))"
    by (simp only: entry_keys_fused distinct_keys_fused)
  then show ?thesis
    by (simp only: distinct_map)
qed

lemma distinct_keys_sorted: "distinct (map key_of_entry (sorted_entries v t))"
proof -
  have "distinct (sorted_entries v t)"
    using distinct_fused_entries [of v t] by (simp add: sorted_entries_sort_key)
  moreover have "inj_on key_of_entry (set (sorted_entries v t))"
    using inj_key_fused [of v t] by (simp add: set_sorted_entries)
  ultimately show ?thesis by (simp add: distinct_map)
qed

subsection \<open>What \<open>hybridSearch\<close> returns\<close>

text \<open>
  A search that succeeds returns the fusion of the two result lists that the store gives
  for the embedded query and for the query text.
\<close>

lemma hybridSearch_returns_fusion:
  assumes "hybridSearch env query limit w = (Inr out, w')"
  shows "\<exists>queryEmbedding. extractor env (tick w) query = Inr queryEmbedding
           \<and> out = rrf_fuse (vector_query env (notes_table w) queryEmbedding limit)
                            (text_query env (notes_table w) query limit) limit"
  using assms
  by (auto simp: hybridSearch_def andThen_def generateEmbedding_def vectorSearch_def
      textSearch_def advance_def emit_def Let_def split: sum.splits if_splits prod.splits)

subsection \<open>Order of the results\<close>









lemma rrf_fuse_mem:
  assumes "r \<in> set (rrf_fuse v t limit)"
  shows "\<exists>e \<in> set (map snd (fused_scores v t)). r = to_result e"
proof -
  from assms obtain e where
    e: "e \<in> set (take (kept (card (item_strings v t)) limit) (sorted_entries v t))" "r = to_result e"
    by (auto simp: rrf_fuse_take)
  from e(1) have "e \<in> set (sorted_entries v t)" by (rule in_set_takeD)
  then have "e \<in> set (map snd (fused_scores v t))"
    by (simp add: set_sorted_entries)
  with e(2) show ?thesis by blast
qed

lemma rrf_fuse_score:
  assumes "r \<in> set (rrf_fuse v t limit)"
  shows "sr_score r = Some (fusion_score v t (item_string r))"
proof -
  from rrf_fuse_mem [OF assms] obtain e where
    e: "e \<in> set (map snd (fused_scores v t))" "r = to_result e" by blast
  from e(1) have "e_score e = fusion_score v t (key_of_entry e)"
    by (rule entry_score_fused)
  then show ?thesis
    by (simp add: e(2) item_string_to_result) (simp add: to_result_def)
qed

lemma rrf_fuse_first_seen:
  assumes "r \<in> set (rrf_fuse v t limit)"
  shows "\<exists>x. find (\<lambda>x. item_string x = item_string r) (v @ t) = Some x
           \<and> sr_title r = sr_title x \<and> sr_content r = sr_content x"
proof -
  from rrf_fuse_mem [OF assms] obtain e where
    e: "e \<in> set (map snd (fused_scores v t))" "r = to_result e" by blast
  from entry_fused [OF e(1)] obtain x where
    "find (\<lambda>r. item_string r = key_of_entry e) (v @ t) = Some x
       \<and> e = \<lparr>e_score = fusion_score v t (key_of_entry e),
               e_title = sr_title x, e_content = sr_content x\<rparr>" ..
  then have x: "find (\<lambda>r. item_string r = key_of_entry e) (v @ t) = Some x"
    and ee: "e = \<lparr>e_score = fusion_score v t (key_of_entry e),
               e_title = sr_title x, e_content = sr_content x\<rparr>" by blast+
  have "e_title e = e_title \<lparr>e_score = fusion_score v t (key_of_entry e),
               e_title = sr_title x, e_content = sr_content x\<rparr>"
    using ee by (rule arg_cong)
  then have t: "e_title e = sr_title x" by simp
  have "e_content e = e_content \<lparr>e_score = fusion_score v t (key_of_entry e),
               e_title = sr_title x, e_content = sr_content x\<rparr>"
    using ee by (rule arg_cong)
  then have c: "e_content e = sr_content x" by simp
  show ?thesis
    using x t c by (simp add: e(2) item_string_to_result) (simp add: to_result_def)
qed

lemma rrf_fuse_keys: "map item_string (rrf_fuse v t limit)
    = take (kept (card (item_strings v t)) limit) (map key_of_entry (sorted_entries v t))"
  by (simp add: rrf_fuse_take take_map item_string_to_result comp_def)

lemma rrf_fuse_distinct: "distinct (map item_string (rrf_fuse v t limit))"
  unfolding rrf_fuse_keys using distinct_keys_sorted [of v t] by simp

lemma rrf_fuse_keys_subset: "item_string ` set (rrf_fuse v t limit) \<subseteq> item_strings v t"
proof -
  have "set (map item_string (rrf_fuse v t limit)) \<subseteq> set (map key_of_entry (sorted_entries v t))"
    unfolding rrf_fuse_keys by (rule set_take_subset)
  then show ?thesis
    using keys_sorted_entries [of v t] by simp
qed

lemma rrf_fuse_keys_full:
  assumes "int (length v) + int (length t) \<le> limit"
  shows "item_string ` set (rrf_fuse v t limit) = item_strings v t"
proof -
  have "map item_string (rrf_fuse v t limit) = map key_of_entry (sorted_entries v t)"
    by (simp add: rrf_fuse_all [OF assms] item_string_to_result comp_def)
  then have "set (map item_string (rrf_fuse v t limit)) = set (map key_of_entry (sorted_entries v t))"
    by simp
  then show ?thesis
    using keys_sorted_entries [of v t] by simp
qed

lemma rrf_fuse_length_full:
  assumes "int (length v) + int (length t) \<le> limit"
  shows "length (rrf_fuse v t limit) = card (item_strings v t)"
  by (simp add: rrf_fuse_all [OF assms] length_sorted_entries)


subsection \<open>Fusion scores\<close>

text \<open>
  Claim C1, amended. The fusion score of every returned result is the sum of the numbers
  \<open>1 / (60 + i)\<close> over every position \<open>i\<close> of the vector list and then every position
  \<open>i\<close> of the lexical list whose result has the string \<open>title::content\<close> of the item.
  When no item occurs twice in a list, this is the sum, over the lists in which the item
  appears, of \<open>1 / (60 + rank)\<close>: one term for an item of one list, the sum of both
  terms for an item of both. When the limit does not truncate, every item of the two
  lists has a result. The terms and the sums are JavaScript numbers.
\<close>

theorem hybridSearch_fusion_score:
  "(\<forall>r \<in> set (rrf_fuse v t limit).
       sr_score r = Some (fusion_score v t (item_string r)) \<and>
       (distinct (map item_string v) \<and> distinct (map item_string t) \<longrightarrow>
          sr_score r = Some (spec_fusion_score v t (item_string r))))
   \<and> (int (length v) + int (length t) \<le> limit \<longrightarrow>
        item_string ` set (rrf_fuse v t limit) = item_strings v t)"
proof (intro conjI ballI impI)
  fix r assume r: "r \<in> set (rrf_fuse v t limit)"
  then show score: "sr_score r = Some (fusion_score v t (item_string r))"
    by (rule rrf_fuse_score)
  assume "distinct (map item_string v) \<and> distinct (map item_string t)"
  then have "spec_fusion_score v t (item_string r) = fusion_score v t (item_string r)"
    by (intro spec_fusion_score_distinct) simp_all
  with score show "sr_score r = Some (spec_fusion_score v t (item_string r))"
    by simp
next
  assume "int (length v) + int (length t) \<le> limit"
  then show "item_string ` set (rrf_fuse v t limit) = item_strings v t"
    by (rule rrf_fuse_keys_full)
qed

subsection \<open>The identity of an item\<close>

text \<open>
  Claim C9. Results are fused by the string \<open>title::content\<close>, not by the pair of title
  and content. Every returned result stands for all the results of the two lists whose
  title, two colons and content make the same string as its own: its score is the sum of
  the terms \<open>1 / (60 + i)\<close> of all their positions, and its title and content are those
  of the first of them, the vector list before the lexical list. No two returned results
  have the same string, and when the limit does not truncate there is one returned result
  for every string of the two lists: results are merged when their strings are equal and
  only then.
\<close>

theorem fusion_identity_concatenation:
  "(\<forall>r \<in> set (rrf_fuse v t limit).
       sr_score r =
         Some (double_sum (rank_terms v (sr_title r @ ''::'' @ sr_content r)
                         @ rank_terms t (sr_title r @ ''::'' @ sr_content r))) \<and>
       (\<exists>x. find (\<lambda>x. sr_title x @ ''::'' @ sr_content x = sr_title r @ ''::'' @ sr_content r)
                 (v @ t) = Some x
            \<and> sr_title r = sr_title x \<and> sr_content r = sr_content x))
   \<and> distinct (map (\<lambda>r. sr_title r @ ''::'' @ sr_content r) (rrf_fuse v t limit))
   \<and> (\<lambda>r. sr_title r @ ''::'' @ sr_content r) ` set (rrf_fuse v t limit)
       \<subseteq> (\<lambda>r. sr_title r @ ''::'' @ sr_content r) ` (set v \<union> set t)
   \<and> (int (length v) + int (length t) \<le> limit \<longrightarrow>
        (\<lambda>r. sr_title r @ ''::'' @ sr_content r) ` set (rrf_fuse v t limit)
          = (\<lambda>r. sr_title r @ ''::'' @ sr_content r) ` (set v \<union> set t)
        \<and> length (rrf_fuse v t limit)
            = card ((\<lambda>r. sr_title r @ ''::'' @ sr_content r) ` (set v \<union> set t)))"
proof -
  have str: "(\<lambda>r. sr_title r @ ''::'' @ sr_content r) = item_string"
    by (simp add: fun_eq_iff item_string_def)
  have str': "sr_title r @ ''::'' @ sr_content r = item_string r" for r
    by (simp add: item_string_def)
  have strs: "item_string ` (set v \<union> set t) = item_strings v t"
    by (simp add: item_strings_def)
  show ?thesis
    unfolding str str' strs
  proof (intro conjI ballI impI)
    fix r assume r: "r \<in> set (rrf_fuse v t limit)"
    show "sr_score r = Some (double_sum (rank_terms v (item_string r) @ rank_terms t (item_string r)))"
      using rrf_fuse_score [OF r] by (simp add: fusion_score_def)
    show "\<exists>x. find (\<lambda>x. item_string x = item_string r) (v @ t) = Some x
            \<and> sr_title r = sr_title x \<and> sr_content r = sr_content x"
      using r by (rule rrf_fuse_first_seen)
  next
    show "distinct (map item_string (rrf_fuse v t limit))" by (rule rrf_fuse_distinct)
  next
    show "item_string ` set (rrf_fuse v t limit) \<subseteq> item_strings v t"
      by (rule rrf_fuse_keys_subset)
  next
    assume l: "int (length v) + int (length t) \<le> limit"
    then show "item_string ` set (rrf_fuse v t limit) = item_strings v t"
      by (rule rrf_fuse_keys_full)
    from l show "length (rrf_fuse v t limit) = card (item_strings v t)"
      by (rule rrf_fuse_length_full)
  qed
qed
subsection \<open>The examples\<close>

lemma ex_fuse_value:
  "rrf_fuse ex_vector ex_text 20 =
     [\<lparr>sr_title = ''A'', sr_content = ''body'',
       sr_score = Some (double_add (rank_term 0) (rank_term 1))\<rparr>,
      \<lparr>sr_title = ''B'', sr_content = ''body'',
       sr_score = Some (double_add (rank_term 1) (rank_term 0))\<rparr>,
      \<lparr>sr_title = ''C'', sr_content = ''body'', sr_score = Some (rank_term 2)\<rparr>,
      \<lparr>sr_title = ''D'', sr_content = ''body'', sr_score = Some (rank_term 2)\<rparr>]"
  by code_simp


lemma dup_fuse_value:
  "rrf_fuse dup_vector [] 20 =
     [\<lparr>sr_title = ''A'', sr_content = ''body'',
       sr_score = Some (double_add (rank_term 0) (rank_term 1))\<rparr>]"
  by code_simp

lemma split_fuse_value:
  "rrf_fuse split_vector split_text 20 =
     [\<lparr>sr_title = ''a::b'', sr_content = ''c'',
       sr_score = Some (double_add (rank_term 1) (rank_term 0))\<rparr>,
      \<lparr>sr_title = ''A'', sr_content = ''body'', sr_score = Some (rank_term 0)\<rparr>]"
  by code_simp

text \<open>The numbers of the examples: \<open>1 / 60\<close>, \<open>1 / 61\<close> and their sum, as binary64 values.\<close>

lemma rank_term_values:
  "rank_term 0 = 4803839602528529 / 2 ^ 58"
  "rank_term 1 = 4725088133634619 / 2 ^ 58"
  "double_add (rank_term 0) (rank_term 1) = 4764463868081574 / 2 ^ 57"
  by code_simp+


text \<open>In the same example A has rank 0 in the vector list and rank 1 in the lexical list.\<close>

theorem hybridSearch_fusion_score_witness:
  "ex_result ''A'' \<lparr>sr_score := Some (double_add (rank_term 0) (rank_term 1))\<rparr>
     \<in> set (rrf_fuse ex_vector ex_text 20)
   \<and> distinct (map item_string ex_vector) \<and> distinct (map item_string ex_text)
   \<and> spec_fusion_score ex_vector ex_text ''A::body'' = double_add (rank_term 0) (rank_term 1)
   \<and> fusion_score ex_vector ex_text ''A::body'' = double_add (rank_term 0) (rank_term 1)
   \<and> int (length ex_vector) + int (length ex_text) \<le> 20
   \<and> item_string ` set (rrf_fuse ex_vector ex_text 20) = item_strings ex_vector ex_text"
proof -
  define r where "r = ex_result ''A'' \<lparr>sr_score := Some (double_add (rank_term 0) (rank_term 1))\<rparr>"
  have mem: "r \<in> set (rrf_fuse ex_vector ex_text 20)"
    by (simp add: ex_fuse_value ex_result_def r_def)
  have key: "item_string r = ''A::body''"
    by (simp add: item_string_def ex_result_def r_def)
  have dist: "distinct (map item_string ex_vector) \<and> distinct (map item_string ex_text)"
    by (simp add: ex_vector_def ex_text_def ex_result_def item_string_def)
  have lim: "int (length ex_vector) + int (length ex_text) \<le> 20"
    by (simp add: ex_vector_def ex_text_def)
  have sc: "sr_score r = Some (double_add (rank_term 0) (rank_term 1))"
    by (simp add: r_def)
  note inst = hybridSearch_fusion_score [of ex_vector ex_text 20]
  have a: "sr_score r = Some (fusion_score ex_vector ex_text (item_string r))"
    by (rule inst [THEN conjunct1, THEN bspec, OF mem, THEN conjunct1])
  have b: "sr_score r = Some (spec_fusion_score ex_vector ex_text (item_string r))"
    by (rule inst [THEN conjunct1, THEN bspec, OF mem, THEN conjunct2, THEN mp, OF dist])
  have c: "item_string ` set (rrf_fuse ex_vector ex_text 20) = item_strings ex_vector ex_text"
    by (rule inst [THEN conjunct2, THEN mp, OF lim])
  have a': "fusion_score ex_vector ex_text ''A::body'' = double_add (rank_term 0) (rank_term 1)"
    using a sc by (simp add: key)
  have b': "spec_fusion_score ex_vector ex_text ''A::body'' = double_add (rank_term 0) (rank_term 1)"
    using b sc by (simp add: key)
  show ?thesis
    by (intro conjI mem [unfolded r_def] dist [THEN conjunct1] dist [THEN conjunct2] a' b' lim c)
qed

text \<open>
  Claim C1 as stated fails when a list holds two results with the same title and content
  (two notes of the store may): the item is in the vector list only, at ranks 0 and 1, and
  its score is the sum of \<open>1 / 60\<close> and \<open>1 / 61\<close>, not the single term \<open>1 / 60\<close>.
\<close>

theorem fusion_score_duplicate_counterexample:
  "rrf_fuse dup_vector [] 20
     = [\<lparr>sr_title = ''A'', sr_content = ''body'',
         sr_score = Some (double_add (rank_term 0) (rank_term 1))\<rparr>]
   \<and> spec_fusion_score dup_vector [] ''A::body'' = rank_term 0
   \<and> rank_term 0 < double_add (rank_term 0) (rank_term 1)
   \<and> sr_score (rrf_fuse dup_vector [] 20 ! 0)
       \<noteq> Some (spec_fusion_score dup_vector [] (item_string (rrf_fuse dup_vector [] 20 ! 0)))"
  by code_simp

text \<open>
  The two results of the claim, the first at rank 1 of the vector list and the second at
  rank 0 of the lexical list: different pairs of title and content, one string, one
  fused result with the sum of both terms and the title and content of the vector
  result, which is seen first. The result A, of another string, stays apart.
\<close>

theorem fusion_identity_concatenation_witness:
  "(sr_title split_a, sr_content split_a) \<noteq> (sr_title split_b, sr_content split_b)
   \<and> sr_title split_a @ ''::'' @ sr_content split_a = sr_title split_b @ ''::'' @ sr_content split_b
   \<and> rrf_fuse split_vector split_text 20
       = [\<lparr>sr_title = ''a::b'', sr_content = ''c'',
           sr_score = Some (double_add (rank_term 1) (rank_term 0))\<rparr>,
          \<lparr>sr_title = ''A'', sr_content = ''body'', sr_score = Some (rank_term 0)\<rparr>]
   \<and> double_sum (rank_terms split_vector ''a::b::c'' @ rank_terms split_text ''a::b::c'')
       = double_add (rank_term 1) (rank_term 0)
   \<and> rank_terms split_vector ''a::b::c'' = [rank_term 1]
   \<and> rank_terms split_text ''a::b::c'' = [rank_term 0]
   \<and> find (\<lambda>x. sr_title x @ ''::'' @ sr_content x = ''a::b::c'') (split_vector @ split_text)
       = Some split_a
   \<and> int (length split_vector) + int (length split_text) \<le> 20
   \<and> length (rrf_fuse split_vector split_text 20)
       = card ((\<lambda>r. sr_title r @ ''::'' @ sr_content r) ` (set split_vector \<union> set split_text))
   \<and> length (rrf_fuse split_vector split_text 20) = 2"
proof -
  define r where "r = \<lparr>sr_title = ''a::b'', sr_content = ''c'',
           sr_score = Some (double_add (rank_term 1) (rank_term 0))\<rparr>"
  have d: "(sr_title split_a, sr_content split_a) \<noteq> (sr_title split_b, sr_content split_b)"
    by (simp add: split_a_def split_b_def)
  have k: "sr_title split_a @ ''::'' @ sr_content split_a = sr_title split_b @ ''::'' @ sr_content split_b"
    by (simp add: split_a_def split_b_def)
  have mem: "r \<in> set (rrf_fuse split_vector split_text 20)"
    by (simp add: split_fuse_value r_def)
  have rk: "sr_title r @ ''::'' @ sr_content r = ''a::b::c''"
    by (simp add: r_def)
  have sc: "sr_score r = Some (double_add (rank_term 1) (rank_term 0))"
    by (simp add: r_def)
  have tv: "rank_terms split_vector ''a::b::c'' = [rank_term 1]"
    by (simp add: rank_terms_def split_vector_def split_a_def ex_result_def)
  have tt: "rank_terms split_text ''a::b::c'' = [rank_term 0]"
    by (simp add: rank_terms_def split_text_def split_b_def)
  have first: "find (\<lambda>x. sr_title x @ ''::'' @ sr_content x = ''a::b::c'') (split_vector @ split_text)
       = Some split_a"
    by (simp add: split_vector_def split_text_def split_a_def split_b_def ex_result_def)
  have lim: "int (length split_vector) + int (length split_text) \<le> 20"
    by (simp add: split_vector_def split_text_def)
  have two: "length (rrf_fuse split_vector split_text 20) = 2"
    by (simp add: split_fuse_value)
  note inst = fusion_identity_concatenation [of split_vector split_text 20]
  have a: "sr_score r =
         Some (double_sum (rank_terms split_vector (sr_title r @ ''::'' @ sr_content r)
                         @ rank_terms split_text (sr_title r @ ''::'' @ sr_content r)))"
    by (rule inst [THEN conjunct1, THEN bspec, OF mem, THEN conjunct1])
  have a': "double_sum (rank_terms split_vector ''a::b::c'' @ rank_terms split_text ''a::b::c'')
       = double_add (rank_term 1) (rank_term 0)"
    using a sc unfolding rk by simp
  have c: "length (rrf_fuse split_vector split_text 20)
       = card ((\<lambda>r. sr_title r @ ''::'' @ sr_content r) ` (set split_vector \<union> set split_text))"
    by (rule inst [THEN conjunct2, THEN conjunct2, THEN conjunct2, THEN mp, OF lim, THEN conjunct2])
  show ?thesis
    by (intro conjI d k split_fuse_value a' tv tt first lim c two)
qed

section \<open>Properties of the store adapter and the indexer\<close>

lemma apple_ids_append: "apple_ids (xs @ ys) = apple_ids xs @ apple_ids ys"
  by (induction xs) (auto split: option.splits)

lemma set_apple_ids: "k \<in> set (apple_ids rows) \<longleftrightarrow> rows_of k rows \<noteq> []"
  by (induction rows) (auto simp: rows_of_def split: option.splits)

lemma length_rows_of_unique: "unique_apple_ids rows \<Longrightarrow> length (rows_of k rows) \<le> 1"
proof (induction rows)
  case Nil
  then show ?case by (simp add: rows_of_def)
next
  case (Cons row rows)
  show ?case
  proof (cases "n_apple_note_id row = Some k")
    case True
    with Cons.prems have "k \<notin> set (apple_ids rows)"
      by (simp add: unique_apple_ids_def)
    then have "rows_of k rows = []" by (simp add: set_apple_ids)
    then show ?thesis using True by (simp add: rows_of_def)
  next
    case False
    from Cons.prems have "unique_apple_ids rows"
      by (simp add: unique_apple_ids_def split: option.splits)
    then show ?thesis using False Cons.IH by (simp add: rows_of_def)
  qed
qed

lemma find_rows_of:
  "find (\<lambda>row. n_apple_note_id row = Some k) rows = None \<longleftrightarrow> rows_of k rows = []"
  by (auto simp: find_None_iff rows_of_def filter_empty_conv)

lemma apple_ids_conflict_update:
  "apple_ids (map (\<lambda>row. if n_apple_note_id row = Some k then conflict_update note now row else row) rows)
     = apple_ids rows"
  by (induction rows) (auto simp: conflict_update_def split: option.splits)

lemma rows_of_conflict_update:
  "rows_of k' (map (\<lambda>row. if n_apple_note_id row = Some k then conflict_update note now row else row) rows)
     = (if k' = k then map (conflict_update note now) (rows_of k rows) else rows_of k' rows)"
  by (induction rows) (auto simp: rows_of_def conflict_update_def)

lemma length_conflict_update:
  "length (map (\<lambda>row. if n_apple_note_id row = Some k then conflict_update note now row else row) rows)
     = length rows"
  by simp

text \<open>What one successful upsert leaves.\<close>

lemma upsertNote_success:
  assumes up: "upsertNote env note w = (Inr rid, w1)"
    and uniq: "unique_apple_ids (notes_table w)"
  shows "\<exists>row. rows_of (u_apple_note_id note) (notes_table w1) = [row]
           \<and> n_id row = rid
           \<and> n_indexed_at row = store_now env (tick w)
           \<and> n_title row = u_title note \<and> n_content row = u_content note
           \<and> n_content_hash row = or_null (u_content_hash note)
           \<and> n_embedding row = u_embedding note"
    and "unique_apple_ids (notes_table w1)"
    and "k \<noteq> u_apple_note_id note \<Longrightarrow> rows_of k (notes_table w1) = rows_of k (notes_table w)"
    and "tick w1 = Suc (tick w)"
    and "rows_of (u_apple_note_id note) (notes_table w) \<noteq> [] \<Longrightarrow>
           length (notes_table w1) = length (notes_table w)"
proof -
  let ?k = "u_apple_note_id note"
  let ?now = "store_now env (tick w)"
  from up have store: "store_up env (tick w)"
    by (auto simp: upsertNote_def Let_def split: if_splits)
  show "tick w1 = Suc (tick w)"
    using up by (auto simp: upsertNote_def Let_def advance_def emit_def split: if_splits option.splits)
  show "\<exists>row. rows_of ?k (notes_table w1) = [row] \<and> n_id row = rid \<and> n_indexed_at row = ?now
           \<and> n_title row = u_title note \<and> n_content row = u_content note
           \<and> n_content_hash row = or_null (u_content_hash note)
           \<and> n_embedding row = u_embedding note"
  proof (cases "find (\<lambda>row. n_apple_note_id row = Some ?k) (notes_table w)")
    case None
    then have none: "rows_of ?k (notes_table w) = []" by (simp add: find_rows_of)
    from up None store
    have "notes_table w1 = notes_table w @ [inserted_row note ?now rid]"
      by (auto simp: upsertNote_def Let_def advance_def emit_def split: if_splits)
    then show ?thesis
      using none by (simp add: rows_of_def inserted_row_def)
  next
    case (Some existing)
    then have ex: "existing \<in> set (notes_table w)" "n_apple_note_id existing = Some ?k"
      by (auto simp: find_Some_iff)
    then have "existing \<in> set (rows_of ?k (notes_table w))" by (simp add: rows_of_def)
    moreover have "length (rows_of ?k (notes_table w)) \<le> 1"
      using uniq by (rule length_rows_of_unique)
    ultimately have one: "rows_of ?k (notes_table w) = [existing]"
      by (cases "rows_of ?k (notes_table w)") auto
    from up Some store
    have tbl: "notes_table w1 =
        map (\<lambda>row. if n_apple_note_id row = Some ?k then conflict_update note ?now row else row)
            (notes_table w)"
      and rid: "rid = n_id existing"
      by (auto simp: upsertNote_def Let_def advance_def emit_def split: if_splits)
    show ?thesis
      by (simp add: tbl rows_of_conflict_update one rid conflict_update_def)
  qed
  show "unique_apple_ids (notes_table w1)"
  proof (cases "find (\<lambda>row. n_apple_note_id row = Some ?k) (notes_table w)")
    case None
    then have "?k \<notin> set (apple_ids (notes_table w))"
      by (simp add: find_rows_of set_apple_ids)
    moreover from up None store
    have "notes_table w1 = notes_table w @ [inserted_row note ?now rid]"
      by (auto simp: upsertNote_def Let_def advance_def emit_def split: if_splits)
    ultimately show ?thesis
      using uniq
      by (simp add: unique_apple_ids_def apple_ids_append inserted_row_def)
  next
    case (Some existing)
    with up store
    have "notes_table w1 =
        map (\<lambda>row. if n_apple_note_id row = Some ?k then conflict_update note ?now row else row)
            (notes_table w)"
      by (auto simp: upsertNote_def Let_def advance_def emit_def split: if_splits)
    then show ?thesis
      using uniq by (simp add: unique_apple_ids_def apple_ids_conflict_update)
  qed
  show "rows_of k (notes_table w1) = rows_of k (notes_table w)" if "k \<noteq> ?k"
  proof (cases "find (\<lambda>row. n_apple_note_id row = Some ?k) (notes_table w)")
    case None
    with up store
    have "notes_table w1 = notes_table w @ [inserted_row note ?now rid]"
      by (auto simp: upsertNote_def Let_def advance_def emit_def split: if_splits)
    then show ?thesis
      using that by (simp add: rows_of_def inserted_row_def)
  next
    case (Some existing)
    with up store
    have "notes_table w1 =
        map (\<lambda>row. if n_apple_note_id row = Some ?k then conflict_update note ?now row else row)
            (notes_table w)"
      by (auto simp: upsertNote_def Let_def advance_def emit_def split: if_splits)
    then show ?thesis
      using that by (simp add: rows_of_conflict_update)
  qed
  show "length (notes_table w1) = length (notes_table w)" if "rows_of ?k (notes_table w) \<noteq> []"
  proof -
    from that obtain existing
      where "find (\<lambda>row. n_apple_note_id row = Some ?k) (notes_table w) = Some existing"
      by (cases "find (\<lambda>row. n_apple_note_id row = Some ?k) (notes_table w)")
         (auto simp: find_rows_of)
    with up store
    have "notes_table w1 =
        map (\<lambda>row. if n_apple_note_id row = Some ?k then conflict_update note ?now row else row)
            (notes_table w)"
      by (auto simp: upsertNote_def Let_def advance_def emit_def split: if_splits)
    then show ?thesis by simp
  qed
qed

lemma job_states_append: "job_states (xs @ ys) = job_states xs @ job_states ys"
  by (induction xs) (auto split: event.splits)

lemma jobs_frame_refl: "jobs_frame w w"
  by (simp add: jobs_frame_def)

lemma jobs_frame_trans: "jobs_frame w w1 \<Longrightarrow> jobs_frame w1 w2 \<Longrightarrow> jobs_frame w w2"
  by (simp add: jobs_frame_def)

lemma jobs_frame_advance: "jobs_frame w (advance w)"
  by (simp add: jobs_frame_def advance_def)

lemma jobs_frame_generateEmbedding: "jobs_frame w (snd (generateEmbedding env text w))"
  by (simp add: jobs_frame_def generateEmbedding_def advance_def emit_def job_states_append)

lemma jobs_frame_upsertNote: "jobs_frame w (snd (upsertNote env note w))"
  by (simp add: jobs_frame_def upsertNote_def advance_def emit_def job_states_append Let_def
      split: option.splits)

lemma jobs_frame_getNoteDetailsById: "jobs_frame w (snd (getNoteDetailsById env noteId w))"
  by (simp add: getNoteDetailsById_def jobs_frame_advance)

lemma jobs_frame_andThen:
  assumes "\<And>w. jobs_frame w (snd (m w))" and "\<And>x w. jobs_frame w (snd (f x w))"
  shows "jobs_frame w (snd (andThen m f w))"
proof (cases "m w")
  case (Pair r w1)
  from assms(1) [of w] Pair have 1: "jobs_frame w w1" by simp
  show ?thesis
  proof (cases r)
    case (Inl e)
    with Pair 1 show ?thesis by (simp add: andThen_def)
  next
    case (Inr x)
    with Pair have "andThen m f w = f x w1" by (simp add: andThen_def)
    with 1 assms(2) [of w1 x] show ?thesis by (auto intro: jobs_frame_trans)
  qed
qed

lemma jobs_frame_processNote: "jobs_frame w (snd (processNote env note w))"
  unfolding processNote_def Let_def
  by (intro jobs_frame_andThen jobs_frame_generateEmbedding jobs_frame_upsertNote)
     (simp add: jobs_frame_refl)

lemma jobs_frame_syncTask: "jobs_frame w (snd (syncTask env hashes noteId w))"
  unfolding syncTask_def Let_def
  by (intro jobs_frame_andThen jobs_frame_getNoteDetailsById)
     (auto simp: jobs_frame_refl jobs_frame_processNote split: option.splits)

lemma jobs_frame_allSettled:
  assumes "\<And>x w. jobs_frame w (snd (task x w))"
  shows "jobs_frame w (snd (allSettled task xs w))"
proof (induction xs arbitrary: w)
  case Nil
  show ?case by (simp add: jobs_frame_refl)
next
  case (Cons x xs)
  obtain r w1 where t: "task x w = (r, w1)" by (cases "task x w")
  obtain rs w2 where a: "allSettled task xs w1 = (rs, w2)" by (cases "allSettled task xs w1")
  from assms [of w x] t have "jobs_frame w w1" by simp
  moreover from Cons.IH [of w1] a have "jobs_frame w1 w2" by simp
  ultimately show ?case using t a by (auto intro: jobs_frame_trans)
qed

lemma length_allSettled: "length (fst (allSettled task xs w)) = length xs"
proof (induction xs arbitrary: w)
  case Nil
  show ?case by simp
next
  case (Cons x xs)
  obtain r w1 where t: "task x w = (r, w1)" by (cases "task x w")
  obtain rs w2 where a: "allSettled task xs w1 = (rs, w2)" by (cases "allSettled task xs w1")
  from Cons.IH [of w1] a have "length rs = length xs" by simp
  then show ?case using t a by simp
qed

lemma tally_sum: "tally rs (p, f) = (p', f') \<Longrightarrow> p' + f' = p + f + length rs \<and> p \<le> p' \<and> f \<le> f'"
proof (induction rs arbitrary: p f)
  case Nil
  then show ?case by simp
next
  case (Cons r rs)
  show ?case
  proof (cases r)
    case (Inl e)
    with Cons.prems have "tally rs (p, Suc f) = (p', f')" by simp
    from Cons.IH [OF this] show ?thesis by simp
  next
    case (Inr u)
    with Cons.prems have "tally rs (Suc p, f) = (p', f')" by simp
    from Cons.IH [OF this] show ?thesis by simp
  qed
qed

lemma length_batch:
  "length (js_slice items (int i) (int (i + BATCH_SIZE))) = min BATCH_SIZE (length items - i)"
  by (auto simp: js_slice_def Let_def min_def)

lemma set_batch: "set (js_slice items (int i) (int (i + BATCH_SIZE))) \<subseteq> set items"
proof -
  have "set (js_slice items (int i) (int (i + BATCH_SIZE))) \<subseteq> set (drop (nat (min (int i) (int (length items)))) items)"
    by (auto simp: js_slice_def Let_def dest: in_set_takeD)
  then show ?thesis by (auto dest: in_set_dropD)
qed

text \<open>The rule of the batch loop: an invariant of the loop head gives the result.\<close>

lemma batchLoop_rule:
  assumes inv: "Inv i p f w"
    and step: "\<And>i p f w rs w1 p' f' w2.
        Inv i p f w \<Longrightarrow> i < length items \<Longrightarrow>
        allSettled task (js_slice items (int i) (int (i + BATCH_SIZE))) w = (rs, w1) \<Longrightarrow>
        tally rs (p, f) = (p', f') \<Longrightarrow>
        updateJobProgress env jobId p' f' w1 = (Inr (), w2) \<Longrightarrow>
        Inv (i + BATCH_SIZE) p' f' w2"
    and abort: "\<And>i p f w rs w1 p' f' err w2.
        Inv i p f w \<Longrightarrow> i < length items \<Longrightarrow>
        allSettled task (js_slice items (int i) (int (i + BATCH_SIZE))) w = (rs, w1) \<Longrightarrow>
        tally rs (p, f) = (p', f') \<Longrightarrow>
        updateJobProgress env jobId p' f' w1 = (Inl err, w2) \<Longrightarrow>
        Post (Inl err) w2"
    and exit: "\<And>i p f w. Inv i p f w \<Longrightarrow> \<not> i < length items \<Longrightarrow> Post (Inr (p, f)) w"
  shows "Post (fst (batchLoop env task jobId items i p f w))
              (snd (batchLoop env task jobId items i p f w))"
  using inv step abort exit
proof (induction env task jobId items i p f w rule: batchLoop.induct)
  case (1 env task jobId items i p f w)
  note inv = "1.prems"(1)
  show ?case
  proof (cases "i < length items")
    case False
    then have "batchLoop env task jobId items i p f w = (Inr (p, f), w)"
      by (subst batchLoop.simps) simp
    then show ?thesis
      using "1.prems"(4) [OF inv False] by simp
  next
    case True
    obtain rs w1
      where a: "allSettled task (js_slice items (int i) (int (i + BATCH_SIZE))) w = (rs, w1)"
      by (cases "allSettled task (js_slice items (int i) (int (i + BATCH_SIZE))) w")
    obtain p' f' where t: "tally rs (p, f) = (p', f')"
      by (cases "tally rs (p, f)")
    obtain r2 w2 where u: "updateJobProgress env jobId p' f' w1 = (r2, w2)"
      by (cases "updateJobProgress env jobId p' f' w1")
    show ?thesis
    proof (cases r2)
      case (Inl err)
      have "batchLoop env task jobId items i p f w = (Inl err, w2)"
        by (subst batchLoop.simps) (simp add: True a t u Inl del: of_nat_add)
      then show ?thesis
        using "1.prems"(3) [OF inv True a t u [unfolded Inl]] by simp
    next
      case (Inr x)
      have eq: "batchLoop env task jobId items i p f w
          = batchLoop env task jobId items (i + BATCH_SIZE) p' f' w2"
        by (subst batchLoop.simps) (simp add: True a t u Inr del: of_nat_add)
      have inv': "Inv (i + BATCH_SIZE) p' f' w2"
        using "1.prems"(2) [OF inv True a t] u Inr by simp
      show ?thesis
        unfolding eq
        by (rule "1.IH" [OF True a [symmetric] t [symmetric] u [symmetric] Inr inv'
              "1.prems"(2) "1.prems"(3) "1.prems"(4)])
    qed
  qed
qed

lemma job_at_frame: "job_at jobId T p f st w \<Longrightarrow> jobs_frame w w' \<Longrightarrow> job_at jobId T p f st w'"
  by (simp add: job_at_def jobs_frame_def)

lemma job_run_frame: "job_run jobId T w0 w \<Longrightarrow> jobs_frame w w' \<Longrightarrow> job_run jobId T w0 w'"
  by (simp add: job_run_def jobs_frame_def)

lemma job_run_frame0: "jobs_frame w0 w1 \<Longrightarrow> job_run jobId T w1 w \<Longrightarrow> job_run jobId T w0 w"
  by (simp add: job_run_def jobs_frame_def)

lemma createIndexingJob_Inr:
  assumes "createIndexingJob env T w = (Inr jobId, w')"
  shows "job_at jobId T 0 0 Running w'" and "job_run jobId T w w'" and "jobs_table w jobId = None"
  using assms
  by (auto simp: createIndexingJob_def Let_def advance_def emit_def job_at_def job_run_def
      job_states_append split: if_splits)

lemma createIndexingJob_Inl:
  assumes "createIndexingJob env T w = (Inl e, w')"
  shows "jobs_table w' = jobs_table w" and "job_states (events w') = job_states (events w)"
  using assms
  by (auto simp: createIndexingJob_def Let_def advance_def emit_def split: if_splits)

lemma updateJobProgress_job:
  assumes at: "job_at jobId T p f Running w"
    and run: "job_run jobId T w0 w"
    and le: "p' + f' \<le> T"
    and up: "updateJobProgress env jobId p' f' w = (r, w')"
  shows "job_run jobId T w0 w'"
    and "r = Inr () \<Longrightarrow> job_at jobId T p' f' Running w'"
    and "isl r \<Longrightarrow> job_at jobId T p f Running w'"
proof -
  from at obtain j where j: "jobs_table w jobId = Some j" "j_id j = jobId" "j_total_notes j = T"
    "j_processed_notes j = p" "j_failed_notes j = f" "j_status j = Running"
    by (auto simp: job_at_def)
  from run obtain new where new: "job_states (events w) = job_states (events w0) @ new"
    "\<forall>j \<in> set new. j_id j = jobId \<and> j_total_notes j = T
              \<and> j_processed_notes j + j_failed_notes j \<le> T \<and> j_status j \<noteq> Failed"
    and other: "\<forall>k. k \<noteq> jobId \<longrightarrow> jobs_table w k = jobs_table w0 k"
    by (auto simp: job_run_def)
  show "job_run jobId T w0 w'"
  proof (cases "store_up env (tick w)")
    case False
    with up have "w' = advance w" by (simp add: updateJobProgress_def)
    then show ?thesis using run by (simp add: job_run_def advance_def)
  next
    case True
    with up j have w': "w' = emit (JobState (j\<lparr>j_processed_notes := p', j_failed_notes := f'\<rparr>))
        ((advance w)\<lparr>jobs_table := (jobs_table w)(jobId \<mapsto> j\<lparr>j_processed_notes := p', j_failed_notes := f'\<rparr>)\<rparr>)"
      by (simp add: updateJobProgress_def Let_def)
    have "job_states (events w') = job_states (events w0) @ (new @ [j\<lparr>j_processed_notes := p', j_failed_notes := f'\<rparr>])"
      by (simp add: w' emit_def advance_def job_states_append new(1))
    moreover have "\<forall>x \<in> set (new @ [j\<lparr>j_processed_notes := p', j_failed_notes := f'\<rparr>]).
        j_id x = jobId \<and> j_total_notes x = T \<and> j_processed_notes x + j_failed_notes x \<le> T \<and> j_status x \<noteq> Failed"
      using new(2) j le by auto
    moreover have "\<forall>k. k \<noteq> jobId \<longrightarrow> jobs_table w' k = jobs_table w0 k"
      using other by (simp add: w' emit_def advance_def)
    ultimately show ?thesis unfolding job_run_def by blast
  qed
  show "job_at jobId T p' f' Running w'" if "r = Inr ()"
    using that up j
    by (auto simp: updateJobProgress_def Let_def emit_def advance_def job_at_def split: if_splits)
  show "job_at jobId T p f Running w'" if "isl r"
    using that up j
    by (auto simp: updateJobProgress_def Let_def emit_def advance_def job_at_def split: if_splits)
qed

lemma completeJob_job:
  assumes at: "job_at jobId T p f Running w"
    and run: "job_run jobId T w0 w"
    and le: "p + f \<le> T"
    and st: "st \<noteq> Failed"
    and up: "completeJob env jobId st w = (r, w')"
  shows "job_run jobId T w0 w'"
    and "r = Inr () \<Longrightarrow> job_at jobId T p f st w'"
    and "isl r \<Longrightarrow> job_at jobId T p f Running w'"
proof -
  from at obtain j where j: "jobs_table w jobId = Some j" "j_id j = jobId" "j_total_notes j = T"
    "j_processed_notes j = p" "j_failed_notes j = f" "j_status j = Running"
    by (auto simp: job_at_def)
  from run obtain new where new: "job_states (events w) = job_states (events w0) @ new"
    "\<forall>j \<in> set new. j_id j = jobId \<and> j_total_notes j = T
              \<and> j_processed_notes j + j_failed_notes j \<le> T \<and> j_status j \<noteq> Failed"
    and other: "\<forall>k. k \<noteq> jobId \<longrightarrow> jobs_table w k = jobs_table w0 k"
    by (auto simp: job_run_def)
  define j' where "j' = j\<lparr>j_status := st, j_completed_at := Some (store_now env (tick w))\<rparr>"
  show "job_run jobId T w0 w'"
  proof (cases "store_up env (tick w)")
    case False
    with up have "w' = advance w" by (simp add: completeJob_def)
    then show ?thesis using run by (simp add: job_run_def advance_def)
  next
    case True
    with up j have w': "w' = emit (JobState j') ((advance w)\<lparr>jobs_table := (jobs_table w)(jobId \<mapsto> j')\<rparr>)"
      by (simp add: completeJob_def Let_def j'_def)
    have "job_states (events w') = job_states (events w0) @ (new @ [j'])"
      by (simp add: w' emit_def advance_def job_states_append new(1))
    moreover have "\<forall>x \<in> set (new @ [j']).
        j_id x = jobId \<and> j_total_notes x = T \<and> j_processed_notes x + j_failed_notes x \<le> T \<and> j_status x \<noteq> Failed"
      using new(2) j le st by (auto simp: j'_def)
    moreover have "\<forall>k. k \<noteq> jobId \<longrightarrow> jobs_table w' k = jobs_table w0 k"
      using other by (simp add: w' emit_def advance_def)
    ultimately show ?thesis unfolding job_run_def by blast
  qed
  show "job_at jobId T p f st w'" if "r = Inr ()"
    using that up j
    by (auto simp: completeJob_def Let_def emit_def advance_def job_at_def split: if_splits)
  show "job_at jobId T p f Running w'" if "isl r"
    using that up j
    by (auto simp: completeJob_def Let_def emit_def advance_def job_at_def split: if_splits)
qed

lemma batchLoop_jobs:
  assumes frame: "\<And>x w. jobs_frame w (snd (task x w))"
    and at: "job_at jobId T p f Running w"
    and run: "job_run jobId T w0 w"
    and total: "p + f + (length items - i) = T"
    and bound: "f + (length items - i) \<le> F"
  shows "loop_post jobId T F w0 (fst (batchLoop env task jobId items i p f w))
           (snd (batchLoop env task jobId items i p f w))"
proof (rule batchLoop_rule [where Inv = "\<lambda>i p f w. job_at jobId T p f Running w \<and> job_run jobId T w0 w
          \<and> p + f + (length items - i) = T \<and> f + (length items - i) \<le> F"])
  show "job_at jobId T p f Running w \<and> job_run jobId T w0 w
          \<and> p + f + (length items - i) = T \<and> f + (length items - i) \<le> F"
    using at run total bound by simp
next
  fix i p f w rs w1 p' f' w2
  assume inv: "job_at jobId T p f Running w \<and> job_run jobId T w0 w
          \<and> p + f + (length items - i) = T \<and> f + (length items - i) \<le> F"
    and i: "i < length items"
    and a: "allSettled task (js_slice items (int i) (int (i + BATCH_SIZE))) w = (rs, w1)"
    and t: "tally rs (p, f) = (p', f')"
  have fr: "jobs_frame w w1"
    using jobs_frame_allSettled [of task w "js_slice items (int i) (int (i + BATCH_SIZE))"] frame a
    by simp
  have len: "length rs = min BATCH_SIZE (length items - i)"
    using length_allSettled [of task "js_slice items (int i) (int (i + BATCH_SIZE))" w] a
    by (simp add: length_batch del: of_nat_add)
  from tally_sum [OF t] have ts: "p' + f' = p + f + length rs" "p \<le> p'" "f \<le> f'" by simp_all
  have at1: "job_at jobId T p f Running w1" using inv fr by (auto intro: job_at_frame)
  have run1: "job_run jobId T w0 w1" using inv fr by (auto intro: job_run_frame)
  have le: "p' + f' \<le> T" using ts len inv by (simp add: min_def split: if_splits)
  {
    assume u: "updateJobProgress env jobId p' f' w1 = (Inr (), w2)"
    have "job_at jobId T p' f' Running w2"
      using updateJobProgress_job(2) [OF at1 run1 le u] by simp
    moreover have "job_run jobId T w0 w2"
      by (rule updateJobProgress_job(1) [OF at1 run1 le u])
    moreover have "p' + f' + (length items - (i + BATCH_SIZE)) = T"
      using ts len inv by (simp add: min_def split: if_splits)
    moreover have "f' + (length items - (i + BATCH_SIZE)) \<le> F"
      using ts len inv by (simp add: min_def split: if_splits)
    ultimately show "job_at jobId T p' f' Running w2 \<and> job_run jobId T w0 w2
          \<and> p' + f' + (length items - (i + BATCH_SIZE)) = T
          \<and> f' + (length items - (i + BATCH_SIZE)) \<le> F"
      by simp
  }
  {
    fix err
    assume u: "updateJobProgress env jobId p' f' w1 = (Inl err, w2)"
    have "job_at jobId T p f Running w2"
      using updateJobProgress_job(3) [OF at1 run1 le u] by simp
    moreover have "job_run jobId T w0 w2"
      by (rule updateJobProgress_job(1) [OF at1 run1 le u])
    moreover have "p + f \<le> T" using inv by simp
    ultimately show "loop_post jobId T F w0 (Inl err) w2"
      unfolding loop_post_def by auto
  }
next
  fix i p f w
  assume inv: "job_at jobId T p f Running w \<and> job_run jobId T w0 w
          \<and> p + f + (length items - i) = T \<and> f + (length items - i) \<le> F"
    and i: "\<not> i < length items"
  then show "loop_post jobId T F w0 (Inr (p, f)) w"
    unfolding loop_post_def by auto
qed

lemma andThen_elim:
  assumes "andThen m f w = (r, w')"
  obtains (fail) e where "m w = (Inl e, w')" "r = Inl e"
        | (ok) x w1 where "m w = (Inr x, w1)" "f x w1 = (r, w')"
  using assms by (auto simp: andThen_def split: prod.splits sum.splits)

lemma jobs_frame_getAllNotesWithDetails: "jobs_frame w (snd (getAllNotesWithDetails env w))"
  by (simp add: getAllNotesWithDetails_def jobs_frame_advance)

lemma jobs_frame_getAllNotesSummary: "jobs_frame w (snd (getAllNotesSummary env w))"
  by (simp add: getAllNotesSummary_def jobs_frame_advance)

lemma jobs_frame_getAllNoteHashes: "jobs_frame w (snd (getAllNoteHashes env w))"
  by (simp add: getAllNoteHashes_def jobs_frame_advance)

lemma jobs_frame_deleteNotesByAppleIds: "jobs_frame w (snd (deleteNotesByAppleIds env ids w))"
  by (simp add: deleteNotesByAppleIds_def jobs_frame_def advance_def Let_def)

text \<open>The part of a run after the job has been created.\<close>

lemma finish_outcome:
  assumes none: "jobs_table w jobId = None"
    and post: "loop_post jobId T F w r3 w3"
    and fin: "(case r3 of Inl e \<Rightarrow> (Inl e, w3)
               | Inr (p, f) \<Rightarrow>
                   andThen (completeJob env jobId Completed) (\<lambda>_ w.
                     (Inr \<lparr>r_jobId = jobId, r_totalNotes = T, r_processedNotes = p,
                           r_failedNotes = f, r_status = Completed\<rparr>, w)) w3) = (r, w')"
  shows "run_outcome T F w r w'"
proof -
  from post obtain p f where run: "job_run jobId T w w3" and at: "job_at jobId T p f Running w3"
    and le: "p + f \<le> T" and res: "\<not> isl r3 \<longrightarrow> r3 = Inr (p, f) \<and> p + f = T \<and> f \<le> F"
    by (auto simp: loop_post_def)
  show ?thesis
  proof (cases r3)
    case (Inl e)
    with fin have "r = Inl e" "w' = w3" by simp_all
    with none run at le show ?thesis unfolding run_outcome_def by auto
  next
    case (Inr pf)
    with res have pf: "r3 = Inr (p, f)" "p + f = T" "f \<le> F" by simp_all
    from fin pf have "andThen (completeJob env jobId Completed) (\<lambda>_ w.
                     (Inr \<lparr>r_jobId = jobId, r_totalNotes = T, r_processedNotes = p,
                           r_failedNotes = f, r_status = Completed\<rparr>, w)) w3 = (r, w')"
      by simp
    then show ?thesis
    proof (cases rule: andThen_elim)
      case (fail e)
      have "job_run jobId T w w'"
        by (rule completeJob_job(1) [OF at run le _ fail(1)]) simp
      moreover have "job_at jobId T p f Running w'"
        using completeJob_job(3) [OF at run le _ fail(1)] by simp
      ultimately show ?thesis
        using none le fail(2) unfolding run_outcome_def by auto
    next
      case (ok x w1)
      then have r: "r = Inr \<lparr>r_jobId = jobId, r_totalNotes = T, r_processedNotes = p,
                           r_failedNotes = f, r_status = Completed\<rparr>" and w1: "w1 = w'"
        by simp_all
      have c: "completeJob env jobId Completed w3 = (Inr (), w')"
        using ok(1) w1 by simp
      have "job_run jobId T w w'"
        by (rule completeJob_job(1) [OF at run le _ c]) simp
      moreover have "job_at jobId T p f Completed w'"
        using completeJob_job(2) [OF at run le _ c] by simp
      ultimately show ?thesis
        using none pf(2) pf(3) r unfolding run_outcome_def by auto
    qed
  qed
qed

lemma startFullIndexing_outcome:
  assumes "startFullIndexing env w = (r, w')"
  shows "\<exists>T. run_outcome T T w r w'"
proof -
  from assms have "andThen (getAllNotesWithDetails env) (\<lambda>notes.
     andThen (createIndexingJob env (length notes)) (\<lambda>jobId.
     andThen (batchLoop env (processNote env) jobId notes 0 0 0) (\<lambda>(processedNotes, failedNotes).
     andThen (completeJob env jobId Completed) (\<lambda>_ w.
       (Inr \<lparr>r_jobId = jobId, r_totalNotes = length notes, r_processedNotes = processedNotes,
             r_failedNotes = failedNotes, r_status = Completed\<rparr>, w))))) w = (r, w')"
    by (simp add: startFullIndexing_def Let_def)
  then show ?thesis
  proof (cases rule: andThen_elim)
    case (fail e)
    then have "w' = advance w" by (simp add: getAllNotesWithDetails_def)
    with fail(2) show ?thesis by (simp add: run_outcome_def advance_def)
  next
    case (ok ns w1)
    have fr1: "jobs_frame w w1"
      using jobs_frame_getAllNotesWithDetails [of w env] ok(1) by simp
    from ok(2) show ?thesis
    proof (cases rule: andThen_elim)
      case (fail e)
      from createIndexingJob_Inl [OF fail(1)] fr1 fail(2) show ?thesis
        by (simp add: run_outcome_def jobs_frame_def)
    next
      case (ok jobId w2)
      note cr = createIndexingJob_Inr [OF ok(1)]
      have none: "jobs_table w jobId = None" using cr(3) fr1 by (simp add: jobs_frame_def)
      have run2: "job_run jobId (length ns) w w2"
        using fr1 cr(2) by (rule job_run_frame0)
      define r3 where "r3 = fst (batchLoop env (processNote env) jobId ns 0 0 0 w2)"
      define w3 where "w3 = snd (batchLoop env (processNote env) jobId ns 0 0 0 w2)"
      have post: "loop_post jobId (length ns) (length ns) w r3 w3"
        unfolding r3_def w3_def
        by (rule batchLoop_jobs [OF jobs_frame_processNote cr(1) run2]) simp_all
      have loop: "batchLoop env (processNote env) jobId ns 0 0 0 w2 = (r3, w3)"
        by (simp add: r3_def w3_def)
      have fin: "(case r3 of Inl e \<Rightarrow> (Inl e, w3)
               | Inr (p, f) \<Rightarrow>
                   andThen (completeJob env jobId Completed) (\<lambda>_ w.
                     (Inr \<lparr>r_jobId = jobId, r_totalNotes = length ns, r_processedNotes = p,
                           r_failedNotes = f, r_status = Completed\<rparr>, w)) w3) = (r, w')"
        using ok(2) loop by (simp add: andThen_def split: sum.splits prod.splits)
      have "run_outcome (length ns) (length ns) w r w'"
        by (rule finish_outcome [OF none post fin])
      then show ?thesis ..
    qed
  qed
qed

lemma case_option_same: "(case x of None \<Rightarrow> a | Some y \<Rightarrow> a) = a"
  by (cases x) simp_all

lemma syncNotes_unfold:
  "syncNotes env =
     andThen (getAllNotesSummary env) (\<lambda>ss.
     andThen (getAllNoteHashes env) (\<lambda>hashes.
     andThen (createIndexingJob env (length ss + length (sync_deleted ss hashes))) (\<lambda>jobId.
     andThen (sync_delete_step env jobId (sync_deleted ss hashes)) (\<lambda>p0.
     andThen (batchLoop env (syncTask env hashes) jobId (map s_id ss) 0 p0 0) (\<lambda>(p, f).
     andThen (completeJob env jobId Completed) (\<lambda>_ w.
       (Inr \<lparr>r_jobId = jobId, r_totalNotes = length ss + length (sync_deleted ss hashes),
             r_processedNotes = p, r_failedNotes = f, r_status = Completed\<rparr>, w)))))))"
  unfolding syncNotes_def Let_def case_option_same sync_delete_step_def sync_deleted_def length_map
  by (rule refl)

lemma sync_delete_step_jobs:
  assumes at: "job_at jobId T 0 0 Running w"
    and run: "job_run jobId T w0 w"
    and le: "length del \<le> T"
    and st: "sync_delete_step env jobId del w = (r, w')"
  shows "job_run jobId T w0 w'"
    and "\<exists>p. job_at jobId T p 0 Running w' \<and> p \<le> T \<and> (\<forall>p0. r = Inr p0 \<longrightarrow> p0 = length del \<and> p = p0)"
proof -
  have both: "job_run jobId T w0 w' \<and>
      (\<exists>p. job_at jobId T p 0 Running w' \<and> p \<le> T \<and> (\<forall>p0. r = Inr p0 \<longrightarrow> p0 = length del \<and> p = p0))"
  proof (cases "length del > 0")
    case False
    with st have "r = Inr 0" "w' = w" by (simp_all add: sync_delete_step_def)
    with at run False show ?thesis by auto
  next
    case True
    with st have "andThen (deleteNotesByAppleIds env del) (\<lambda>_.
           andThen (updateJobProgress env jobId (length del) 0) (\<lambda>_ w. (Inr (length del), w))) w
        = (r, w')"
      by (simp add: sync_delete_step_def)
    then show ?thesis
    proof (cases rule: andThen_elim)
      case (fail e)
      have "jobs_frame w w'"
        using jobs_frame_deleteNotesByAppleIds [of w env del] fail(1) by simp
      with at run fail(2) show ?thesis
        by (auto intro: job_at_frame job_run_frame)
    next
      case (ok n w1)
      have fr: "jobs_frame w w1"
        using jobs_frame_deleteNotesByAppleIds [of w env del] ok(1) by simp
      have at1: "job_at jobId T 0 0 Running w1" using at fr by (rule job_at_frame)
      have run1: "job_run jobId T w0 w1" using run fr by (rule job_run_frame)
      have le': "length del + 0 \<le> T" using le by simp
      from ok(2) show ?thesis
      proof (cases rule: andThen_elim)
        case (fail e)
        have "job_run jobId T w0 w'"
          by (rule updateJobProgress_job(1) [OF at1 run1 le' fail(1)])
        moreover have "job_at jobId T 0 0 Running w'"
          using updateJobProgress_job(3) [OF at1 run1 le' fail(1)] by simp
        ultimately show ?thesis using fail(2) by auto
      next
        case (ok u w2)
        then have r: "r = Inr (length del)" and w2: "w2 = w'" by simp_all
        have up: "updateJobProgress env jobId (length del) 0 w1 = (Inr (), w')"
          using ok(1) w2 by simp
        have "job_run jobId T w0 w'"
          by (rule updateJobProgress_job(1) [OF at1 run1 le' up])
        moreover have "job_at jobId T (length del) 0 Running w'"
          using updateJobProgress_job(2) [OF at1 run1 le' up] by simp
        ultimately show ?thesis using r le by auto
      qed
    qed
  qed
  from both show "job_run jobId T w0 w'" by simp
  from both show "\<exists>p. job_at jobId T p 0 Running w' \<and> p \<le> T
      \<and> (\<forall>p0. r = Inr p0 \<longrightarrow> p0 = length del \<and> p = p0)" by simp
qed

lemma run_outcome_abort:
  assumes "jobs_table w jobId = None" "job_run jobId T w w'" "job_at jobId T p f Running w'"
    "p + f \<le> T" "isl r"
  shows "run_outcome T F w r w'"
  unfolding run_outcome_def using assms by blast

lemma syncNotes_outcome_counts:
  assumes run: "syncNotes env w = (r, w')"
    and ss: "jxa_summaries env (tick w) = Inr ss"
  shows "run_outcome (length ss + length (sync_deleted ss (note_hashes (notes_table w) [])))
           (length ss) w r w'"
proof -
  define dl where "dl = sync_deleted ss (note_hashes (notes_table w) [])"
  define T where "T = length ss + length dl"
  note run' = run [unfolded syncNotes_unfold]
  have "run_outcome T (length ss) w r w'"
    using run'
  proof (cases rule: andThen_elim)
    case (fail e)
    with ss show ?thesis by (simp add: getAllNotesSummary_def)
  next
    case (ok ss' w1)
    then have ss': "ss' = ss" and w1: "w1 = advance w"
      using ss by (simp_all add: getAllNotesSummary_def)
    have fr1: "jobs_frame w w1"
      using jobs_frame_getAllNotesSummary [of w env] ok(1) by simp
    from ok(2) show ?thesis
      unfolding ss'
    proof (cases rule: andThen_elim)
      case (fail e)
      have "jobs_frame w1 w'"
        using jobs_frame_getAllNoteHashes [of w1 env] fail(1) by simp
      with fr1 fail(2) show ?thesis by (simp add: run_outcome_def jobs_frame_def)
    next
      case (ok hashes w2)
      then have hashes: "hashes = note_hashes (notes_table w) []"
        using w1 by (auto simp: getAllNoteHashes_def advance_def split: if_splits)
      have fr2: "jobs_frame w w2"
        using jobs_frame_getAllNoteHashes [of w1 env] ok(1) fr1 by (auto intro: jobs_frame_trans)
      from ok(2) show ?thesis
        unfolding hashes dl_def [symmetric] T_def [symmetric]
      proof (cases rule: andThen_elim)
        case (fail e)
        from createIndexingJob_Inl [OF fail(1)] fr2 fail(2) show ?thesis
          by (simp add: run_outcome_def jobs_frame_def)
      next
        case (ok jobId w3)
        note cr = createIndexingJob_Inr [OF ok(1)]
        have none: "jobs_table w jobId = None" using cr(3) fr2 by (simp add: jobs_frame_def)
        have run3: "job_run jobId T w w3" using fr2 cr(2) by (rule job_run_frame0)
        have le: "length dl \<le> T" by (simp add: T_def)
        from ok(2) show ?thesis
        proof (cases rule: andThen_elim)
          case (fail e)
          from sync_delete_step_jobs [OF cr(1) run3 le fail(1)]
          obtain p where "job_run jobId T w w'" "job_at jobId T p 0 Running w'" "p + 0 \<le> T"
            by auto
          with none show ?thesis
            by (rule run_outcome_abort) (simp add: fail(2))
        next
          case (ok p0 w4)
          from sync_delete_step_jobs [OF cr(1) run3 le ok(1)]
          have run4: "job_run jobId T w w4" and at4: "job_at jobId T p0 0 Running w4"
            and p0: "p0 = length dl"
            by auto
          define r5 where "r5 = fst (batchLoop env (syncTask env (note_hashes (notes_table w) []))
              jobId (map s_id ss) 0 p0 0 w4)"
          define w5 where "w5 = snd (batchLoop env (syncTask env (note_hashes (notes_table w) []))
              jobId (map s_id ss) 0 p0 0 w4)"
          have post: "loop_post jobId T (length ss) w r5 w5"
            unfolding r5_def w5_def
            by (rule batchLoop_jobs [OF jobs_frame_syncTask at4 run4]) (simp_all add: p0 T_def)
          have loop: "batchLoop env (syncTask env (note_hashes (notes_table w) []))
              jobId (map s_id ss) 0 p0 0 w4 = (r5, w5)"
            by (simp add: r5_def w5_def)
          have fin: "(case r5 of Inl e \<Rightarrow> (Inl e, w5)
               | Inr (p, f) \<Rightarrow>
                   andThen (completeJob env jobId Completed) (\<lambda>_ w.
                     (Inr \<lparr>r_jobId = jobId, r_totalNotes = T, r_processedNotes = p,
                           r_failedNotes = f, r_status = Completed\<rparr>, w)) w5) = (r, w')"
            using ok(2) loop by (simp add: andThen_def split: sum.splits prod.splits)
          show ?thesis by (rule finish_outcome [OF none post fin])
        qed
      qed
    qed
  qed
  then show ?thesis by (simp add: T_def dl_def)
qed

lemma syncNotes_outcome:
  assumes run: "syncNotes env w = (r, w')"
  shows "\<exists>T F. run_outcome T F w r w'"
proof (cases "jxa_summaries env (tick w)")
  case (Inl e)
  with run have "r = Inl e" "w' = advance w"
    by (simp_all add: syncNotes_def andThen_def getAllNotesSummary_def)
  then have "run_outcome 0 0 w r w'" by (simp add: run_outcome_def advance_def)
  then show ?thesis by blast
next
  case (Inr ss)
  from syncNotes_outcome_counts [OF run Inr] show ?thesis by blast
qed

lemma run_outcome_states:
  assumes "run_outcome T F w r w'"
  shows "\<exists>new. job_states (events w') = job_states (events w) @ new
           \<and> (\<forall>j \<in> set new. j_processed_notes j + j_failed_notes j \<le> j_total_notes j
                 \<and> j_status j \<noteq> Failed)"
  using assms unfolding run_outcome_def job_run_def by fastforce

lemma run_outcome_result:
  assumes "run_outcome T F w r w'" and "r = Inr res"
  shows "r_processedNotes res + r_failedNotes res = r_totalNotes res \<and> r_status res = Completed
     \<and> r_totalNotes res = T \<and> r_failedNotes res \<le> F
     \<and> (\<exists>j. jobs_table w' (r_jobId res) = Some j \<and> j_status j = Completed
           \<and> j_total_notes j = r_totalNotes res
           \<and> j_processed_notes j = r_processedNotes res
           \<and> j_failed_notes j = r_failedNotes res
           \<and> j_processed_notes j + j_failed_notes j = j_total_notes j)"
  using assms unfolding run_outcome_def job_at_def by auto


text \<open>
  Claim C2. In every run of \<open>startFullIndexing\<close> or \<open>syncNotes\<close>, also one that is
  aborted, every job state the run writes (at creation, after the deletions, after each
  batch and at completion) has \<open>processed + failed \<le> total\<close>; and when the run returns
  its result, the job is completed with \<open>processed + failed = total\<close>, in the row of the
  job and in the result.
\<close>

theorem progress_counters_invariant:
  assumes "startFullIndexing env w = (r, w') \<or> syncNotes env w = (r, w')"
  shows "(\<exists>new. job_states (events w') = job_states (events w) @ new
            \<and> (\<forall>j \<in> set new. j_processed_notes j + j_failed_notes j \<le> j_total_notes j))
     \<and> (\<forall>res. r = Inr res \<longrightarrow>
            r_processedNotes res + r_failedNotes res = r_totalNotes res
          \<and> r_status res = Completed
          \<and> (\<exists>j. jobs_table w' (r_jobId res) = Some j \<and> j_status j = Completed
                \<and> j_total_notes j = r_totalNotes res
                \<and> j_processed_notes j = r_processedNotes res
                \<and> j_failed_notes j = r_failedNotes res
                \<and> j_processed_notes j + j_failed_notes j = j_total_notes j))"
proof -
  from assms obtain T F where out: "run_outcome T F w r w'"
    using startFullIndexing_outcome [of env w r w'] syncNotes_outcome [of env w r w'] by blast
  from run_outcome_states [OF out]
  have "\<exists>new. job_states (events w') = job_states (events w) @ new
            \<and> (\<forall>j \<in> set new. j_processed_notes j + j_failed_notes j \<le> j_total_notes j)"
    by blast
  moreover have "\<forall>res. r = Inr res \<longrightarrow>
            r_processedNotes res + r_failedNotes res = r_totalNotes res
          \<and> r_status res = Completed
          \<and> (\<exists>j. jobs_table w' (r_jobId res) = Some j \<and> j_status j = Completed
                \<and> j_total_notes j = r_totalNotes res
                \<and> j_processed_notes j = r_processedNotes res
                \<and> j_failed_notes j = r_failedNotes res
                \<and> j_processed_notes j + j_failed_notes j = j_total_notes j)"
    using run_outcome_result [OF out] by blast
  ultimately show ?thesis by (rule conjI)
qed

text \<open>The full index of the five notes: three states, the last one completed with 4 + 1 = 5.\<close>

theorem progress_counters_invariant_witness:
  "fst (startFullIndexing ex_env empty_world)
      = Inr \<lparr>r_jobId = 1, r_totalNotes = 5, r_processedNotes = 4, r_failedNotes = 1,
             r_status = Completed\<rparr>
   \<and> map (\<lambda>j. (j_processed_notes j, j_failed_notes j, j_total_notes j, j_status j))
         (job_states (events (snd (startFullIndexing ex_env empty_world))))
       = [(0, 0, 5, Running), (4, 1, 5, Running), (4, 1, 5, Completed)]
   \<and> (\<exists>j. jobs_table (snd (startFullIndexing ex_env empty_world)) 1 = Some j
          \<and> j_status j = Completed
          \<and> j_processed_notes j + j_failed_notes j = j_total_notes j)"
proof -
  have run: "startFullIndexing ex_env empty_world
      = (fst (startFullIndexing ex_env empty_world), snd (startFullIndexing ex_env empty_world))"
    by simp
  have res: "fst (startFullIndexing ex_env empty_world)
      = Inr \<lparr>r_jobId = 1, r_totalNotes = 5, r_processedNotes = 4, r_failedNotes = 1,
             r_status = Completed\<rparr>"
    by code_simp
  have states: "map (\<lambda>j. (j_processed_notes j, j_failed_notes j, j_total_notes j, j_status j))
         (job_states (events (snd (startFullIndexing ex_env empty_world))))
       = [(0, 0, 5, Running), (4, 1, 5, Running), (4, 1, 5, Completed)]"
    by code_simp
  note inv = progress_counters_invariant [OF disjI1, OF run]
  have "\<exists>j. jobs_table (snd (startFullIndexing ex_env empty_world)) 1 = Some j
          \<and> j_status j = Completed
          \<and> j_processed_notes j + j_failed_notes j = j_total_notes j"
    using inv [THEN conjunct2, THEN spec, THEN mp, OF res] by auto
  with res states show ?thesis by simp
qed




text \<open>
  Claim C8. On a table that satisfies the uniqueness constraint, two successful upserts
  with the same external id leave exactly one row for that id: the second one updates the
  row of the first (same row id, same number of rows), the constraint still holds, and
  \<open>indexed_at\<close> is the time of the store at each upsert, whatever the second note holds.
\<close>

theorem upsert_idempotent:
  assumes uniq: "unique_apple_ids (notes_table w)"
    and first: "upsertNote env note w = (Inr rid1, w1)"
    and second: "upsertNote env note2 w1 = (Inr rid2, w2)"
    and same: "u_apple_note_id note2 = u_apple_note_id note"
  shows "(\<exists>row. rows_of (u_apple_note_id note) (notes_table w1) = [row]
            \<and> n_id row = rid1 \<and> n_indexed_at row = store_now env (tick w))
     \<and> (\<exists>row. rows_of (u_apple_note_id note) (notes_table w2) = [row]
            \<and> n_id row = rid1 \<and> n_indexed_at row = store_now env (Suc (tick w)))
     \<and> rid2 = rid1
     \<and> length (notes_table w2) = length (notes_table w1)
     \<and> unique_apple_ids (notes_table w1) \<and> unique_apple_ids (notes_table w2)"
proof -
  note one = upsertNote_success [OF first uniq]
  from one(1) obtain row1 where row1: "rows_of (u_apple_note_id note) (notes_table w1) = [row1]"
    "n_id row1 = rid1" "n_indexed_at row1 = store_now env (tick w)"
    by blast
  note two = upsertNote_success [OF second one(2)]
  from two(1) obtain row2 where row2: "rows_of (u_apple_note_id note) (notes_table w2) = [row2]"
    "n_id row2 = rid2" "n_indexed_at row2 = store_now env (Suc (tick w))"
    unfolding same one(4) by blast
  have len: "length (notes_table w2) = length (notes_table w1)"
    using two(5) row1(1) by (simp add: same)
  have rid: "rid2 = rid1"
  proof -
    from row1(1) have "row1 \<in> set (notes_table w1)" "n_apple_note_id row1 = Some (u_apple_note_id note)"
      using filter_eq_ConsD [of "\<lambda>row. n_apple_note_id row = Some (u_apple_note_id note)" "notes_table w1" row1 "[]"]
      by (auto simp: rows_of_def)
    then obtain existing
      where f: "find (\<lambda>row. n_apple_note_id row = Some (u_apple_note_id note)) (notes_table w1) = Some existing"
      by (cases "find (\<lambda>row. n_apple_note_id row = Some (u_apple_note_id note)) (notes_table w1)")
         (auto simp: find_None_iff)
    then have "existing \<in> set (rows_of (u_apple_note_id note) (notes_table w1))"
      by (auto simp: find_Some_iff rows_of_def)
    with row1 have ex: "n_id existing = rid1" by simp
    from second f same have "rid2 = n_id existing"
      by (auto simp: upsertNote_def Let_def split: if_splits)
    with ex show ?thesis by simp
  qed
  from row1 row2 rid len one(2) two(2) show ?thesis by auto
qed

text \<open>The same note upserted twice into the empty table: one row, indexed at 100 and then at 101.\<close>

theorem upsert_idempotent_witness:
  "unique_apple_ids (notes_table empty_world)
   \<and> fst (upsertNote ex_env ex_upsert empty_world) = Inr 1
   \<and> fst (upsertNote ex_env ex_upsert (snd (upsertNote ex_env ex_upsert empty_world))) = Inr 1
   \<and> map n_indexed_at (notes_table (snd (upsertNote ex_env ex_upsert empty_world))) = [100]
   \<and> map n_indexed_at
        (notes_table (snd (upsertNote ex_env ex_upsert (snd (upsertNote ex_env ex_upsert empty_world)))))
       = [101]
   \<and> length (notes_table (snd (upsertNote ex_env ex_upsert
          (snd (upsertNote ex_env ex_upsert empty_world)))))
       = length (notes_table (snd (upsertNote ex_env ex_upsert empty_world)))
   \<and> unique_apple_ids (notes_table (snd (upsertNote ex_env ex_upsert
          (snd (upsertNote ex_env ex_upsert empty_world)))))"
proof -
  have ev: "unique_apple_ids (notes_table empty_world)
    \<and> fst (upsertNote ex_env ex_upsert empty_world) = Inr 1
    \<and> fst (upsertNote ex_env ex_upsert (snd (upsertNote ex_env ex_upsert empty_world))) = Inr 1
    \<and> map n_indexed_at (notes_table (snd (upsertNote ex_env ex_upsert empty_world))) = [100]
    \<and> map n_indexed_at
         (notes_table (snd (upsertNote ex_env ex_upsert (snd (upsertNote ex_env ex_upsert empty_world)))))
        = [101]"
    by code_simp
  have uniq: "unique_apple_ids (notes_table empty_world)" using ev by simp
  have first: "upsertNote ex_env ex_upsert empty_world
      = (Inr 1, snd (upsertNote ex_env ex_upsert empty_world))"
    using ev by (simp add: prod_eq_iff)
  have second: "upsertNote ex_env ex_upsert (snd (upsertNote ex_env ex_upsert empty_world))
      = (Inr 1, snd (upsertNote ex_env ex_upsert (snd (upsertNote ex_env ex_upsert empty_world))))"
    using ev by (simp add: prod_eq_iff)
  note twice = upsert_idempotent [OF uniq first second refl]
  have "length (notes_table (snd (upsertNote ex_env ex_upsert
          (snd (upsertNote ex_env ex_upsert empty_world)))))
       = length (notes_table (snd (upsertNote ex_env ex_upsert empty_world)))
   \<and> unique_apple_ids (notes_table (snd (upsertNote ex_env ex_upsert
          (snd (upsertNote ex_env ex_upsert empty_world)))))"
    using twice by blast
  with ev show ?thesis by blast
qed

subsection \<open>The table of notes under the statements and the tasks\<close>

lemma notes_generateEmbedding: "notes_table (snd (generateEmbedding env text w)) = notes_table w"
  by (simp add: generateEmbedding_def emit_def advance_def)

lemma notes_getNoteDetailsById: "notes_table (snd (getNoteDetailsById env noteId w)) = notes_table w"
  by (simp add: getNoteDetailsById_def advance_def)

lemma notes_updateJobProgress: "notes_table (snd (updateJobProgress env jobId p f w)) = notes_table w"
  by (simp add: updateJobProgress_def emit_def advance_def Let_def split: option.splits)

lemma notes_completeJob: "notes_table (snd (completeJob env jobId st w)) = notes_table w"
  by (simp add: completeJob_def emit_def advance_def Let_def split: option.splits)

lemma notes_createIndexingJob: "notes_table (snd (createIndexingJob env T w)) = notes_table w"
  by (simp add: createIndexingJob_def emit_def advance_def Let_def)


lemma upsertNote_table:
  "notes_table (snd (upsertNote env note w)) =
     (if \<not> store_up env (tick w) then notes_table w
      else case find (\<lambda>row. n_apple_note_id row = Some (u_apple_note_id note)) (notes_table w) of
             Some existing \<Rightarrow>
               map (\<lambda>row. if n_apple_note_id row = Some (u_apple_note_id note)
                           then conflict_update note (store_now env (tick w)) row else row)
                   (notes_table w)
           | None \<Rightarrow>
               if Suc (notes_id_seq w) \<in> n_id ` set (notes_table w) then notes_table w
               else notes_table w @ [inserted_row note (store_now env (tick w)) (Suc (notes_id_seq w))])"
  by (simp add: upsertNote_def Let_def emit_def advance_def split: option.splits)

lemma rows_of_append: "rows_of k (xs @ ys) = rows_of k xs @ rows_of k ys"
  by (simp add: rows_of_def)

lemma rows_of_inserted:
  "rows_of k [inserted_row note now new_id] = (if k = u_apple_note_id note then [inserted_row note now new_id] else [])"
  by (simp add: rows_of_def inserted_row_def)

lemma upsertNote_other:
  "k \<noteq> u_apple_note_id note \<Longrightarrow>
   rows_of k (notes_table (snd (upsertNote env note w))) = rows_of k (notes_table w)"
  by (simp add: upsertNote_table rows_of_conflict_update rows_of_append rows_of_inserted
      split: option.splits)


lemma upsertNote_keeps:
  assumes "rows_of k (notes_table w) \<noteq> []"
  shows "rows_of k (notes_table (snd (upsertNote env note w))) \<noteq> []"
proof (cases "k = u_apple_note_id note")
  case False
  with assms show ?thesis by (simp add: upsertNote_other)
next
  case True
  with assms obtain existing
    where "find (\<lambda>row. n_apple_note_id row = Some (u_apple_note_id note)) (notes_table w) = Some existing"
    using find_rows_of [of "u_apple_note_id note" "notes_table w"] by auto
  with assms True show ?thesis
    by (auto simp: upsertNote_def Let_def emit_def advance_def rows_of_conflict_update)
qed

text \<open>\<open>processNote\<close>, step by step.\<close>

lemma processNote_cases:
  assumes "processNote env note w = (r, w')"
  obtains (embed_failed) e where "r = Inl e" "w' = snd (generateEmbedding env
        (prepareTextForEmbedding (d_title note) (htmlToMarkdown env (d_content note))) w)"
    | (upsert_done) args w1 r1 where
        "w1 = snd (generateEmbedding env
           (prepareTextForEmbedding (d_title note) (htmlToMarkdown env (d_content note))) w)"
        "u_apple_note_id args = d_id note"
        "upsertNote env args w1 = (r1, w')"
        "r = map_sum id (\<lambda>_. ()) r1"
proof -
  obtain r0 w1 where g: "generateEmbedding env
        (prepareTextForEmbedding (d_title note) (htmlToMarkdown env (d_content note))) w = (r0, w1)"
    by (cases "generateEmbedding env
        (prepareTextForEmbedding (d_title note) (htmlToMarkdown env (d_content note))) w")
  show ?thesis
  proof (cases r0)
    case (Inl e)
    with assms g have "r = Inl e" "w' = w1"
      by (simp_all add: processNote_def Let_def andThen_def)
    with g show ?thesis by (intro embed_failed [of e]) simp_all
  next
    case (Inr emb)
    define args where "args = \<lparr>u_apple_note_id = d_id note, u_title = d_title note,
        u_content = htmlToMarkdown env (d_content note),
        u_html_content = Some (d_content note), u_folder_path = Some (d_folder note),
        u_creation_date = Some (d_creation_date note),
        u_modification_date = Some (d_modification_date note),
        u_content_hash = Some (generateContentHash env (d_content note)),
        u_embedding = Some emb\<rparr>"
    obtain r1 w2 where u: "upsertNote env args w1 = (r1, w2)" by (cases "upsertNote env args w1")
    from assms g Inr u have "w' = w2" "r = map_sum id (\<lambda>_. ()) r1"
      by (auto simp: processNote_def Let_def andThen_def args_def split: sum.splits)
    with g u show ?thesis
      by (intro upsert_done [of w1 args r1]) (simp_all add: args_def)
  qed
qed


lemma processNote_other:
  assumes "k \<noteq> d_id note"
  shows "rows_of k (notes_table (snd (processNote env note w))) = rows_of k (notes_table w)"
proof -
  obtain r w' where p: "processNote env note w = (r, w')" by (cases "processNote env note w")
  then have "rows_of k (notes_table w') = rows_of k (notes_table w)"
  proof (cases rule: processNote_cases)
    case (embed_failed e)
    then show ?thesis by (simp add: notes_generateEmbedding)
  next
    case (upsert_done args w1 r1)
    with assms upsertNote_other [of k args env w1] show ?thesis
      by (simp add: notes_generateEmbedding)
  qed
  with p show ?thesis by simp
qed


lemma processNote_keeps:
  assumes "rows_of k (notes_table w) \<noteq> []"
  shows "rows_of k (notes_table (snd (processNote env note w))) \<noteq> []"
proof -
  obtain r w' where p: "processNote env note w = (r, w')" by (cases "processNote env note w")
  then have "rows_of k (notes_table w') \<noteq> []"
  proof (cases rule: processNote_cases)
    case (embed_failed e)
    with assms show ?thesis by (simp add: notes_generateEmbedding)
  next
    case (upsert_done args w1 r1)
    with assms upsertNote_keeps [of k w1 env args] show ?thesis
      by (simp add: notes_generateEmbedding)
  qed
  with p show ?thesis by simp
qed

text \<open>The task of \<open>syncNotes\<close>.\<close>

lemma syncTask_skip:
  assumes "jxa_details_by_id env (tick w) noteId = Inr None
    \<or> (\<exists>details. jxa_details_by_id env (tick w) noteId = Inr (Some details)
          \<and> map_of hashes noteId = Some (generateContentHash env (d_content details)))"
  shows "syncTask env hashes noteId w = (Inr (), advance w)"
  using assms by (auto simp: syncTask_def andThen_def getNoteDetailsById_def Let_def)

lemma syncTask_cases:
  obtains (skipped) "snd (syncTask env hashes noteId w) = advance w"
    | (processed) details where "jxa_details_by_id env (tick w) noteId = Inr (Some details)"
        "syncTask env hashes noteId w = processNote env details (advance w)"
proof (cases "jxa_details_by_id env (tick w) noteId")
  case (Inl e)
  then have "snd (syncTask env hashes noteId w) = advance w"
    by (simp add: syncTask_def andThen_def getNoteDetailsById_def)
  then show ?thesis by (rule skipped)
next
  case (Inr found)
  show ?thesis
  proof (cases found)
    case None
    with Inr have "snd (syncTask env hashes noteId w) = advance w"
      by (simp add: syncTask_def andThen_def getNoteDetailsById_def)
    then show ?thesis by (rule skipped)
  next
    case (Some details)
    show ?thesis
    proof (cases "Some (generateContentHash env (d_content details)) = map_of hashes noteId")
      case True
      with Inr Some have "snd (syncTask env hashes noteId w) = advance w"
        by (simp add: syncTask_def andThen_def getNoteDetailsById_def Let_def)
      then show ?thesis by (rule skipped)
    next
      case False
      with Inr Some have "syncTask env hashes noteId w = processNote env details (advance w)"
        by (simp add: syncTask_def andThen_def getNoteDetailsById_def Let_def)
      with Inr Some show ?thesis by (intro processed [of details]) simp_all
    qed
  qed
qed

lemma syncTask_other:
  assumes "source_consistent env" and "k \<noteq> noteId"
  shows "rows_of k (notes_table (snd (syncTask env hashes noteId w))) = rows_of k (notes_table w)"
proof (cases rule: syncTask_cases [of env hashes noteId w])
  case skipped
  then show ?thesis by (simp add: advance_def)
next
  case (processed details)
  with assms have "k \<noteq> d_id details" by (auto simp: source_consistent_def)
  with processed processNote_other [of k details env "advance w"] show ?thesis
    by (simp add: advance_def)
qed

lemma syncTask_keeps:
  assumes "rows_of k (notes_table w) \<noteq> []"
  shows "rows_of k (notes_table (snd (syncTask env hashes noteId w))) \<noteq> []"
proof (cases rule: syncTask_cases [of env hashes noteId w])
  case skipped
  with assms show ?thesis by (simp add: advance_def)
next
  case (processed details)
  with assms processNote_keeps [of k "advance w" env details] show ?thesis
    by (simp add: advance_def)
qed

subsection \<open>Invariants of the table of notes along a batch, the loop and a sync\<close>

lemma allSettled_notes_inv:
  assumes "\<And>x w. x \<in> set xs \<Longrightarrow> Q (notes_table w) \<Longrightarrow> Q (notes_table (snd (task x w)))"
    and "Q (notes_table w)"
  shows "Q (notes_table (snd (allSettled task xs w)))"
  using assms
proof (induction xs arbitrary: w)
  case Nil
  then show ?case by simp
next
  case (Cons x xs)
  obtain r w1 where t: "task x w = (r, w1)" by (cases "task x w")
  obtain rs w2 where a: "allSettled task xs w1 = (rs, w2)" by (cases "allSettled task xs w1")
  have "Q (notes_table w1)" using Cons.prems(1) [of x w] Cons.prems(2) t by simp
  then have "Q (notes_table (snd (allSettled task xs w1)))"
    by (intro Cons.IH) (auto intro: Cons.prems(1))
  with t a show ?case by simp
qed

lemma batchLoop_notes_inv:
  assumes task: "\<And>x w. x \<in> set items \<Longrightarrow> Q (notes_table w) \<Longrightarrow> Q (notes_table (snd (task x w)))"
    and q: "Q (notes_table w)"
  shows "Q (notes_table (snd (batchLoop env task jobId items i p f w)))"
proof (rule batchLoop_rule [where Inv = "\<lambda>i p f w. Q (notes_table w)"
      and Post = "\<lambda>r w. Q (notes_table w)"])
  show "Q (notes_table w)" by (rule q)
next
  fix i p f w rs w1 p' f' w2
  assume q: "Q (notes_table w)"
    and a: "allSettled task (js_slice items (int i) (int (i + BATCH_SIZE))) w = (rs, w1)"
  have q1: "Q (notes_table w1)"
    using allSettled_notes_inv [of "js_slice items (int i) (int (i + BATCH_SIZE))" Q task w]
      task set_batch [of items i] q a
    by auto
  {
    assume "updateJobProgress env jobId p' f' w1 = (Inr (), w2)"
    with q1 notes_updateJobProgress [of env jobId p' f' w1]
    show "Q (notes_table w2)" by simp
  }
  {
    fix err
    assume "updateJobProgress env jobId p' f' w1 = (Inl err, w2)"
    with q1 notes_updateJobProgress [of env jobId p' f' w1]
    show "Q (notes_table w2)" by simp
  }
qed

lemma without_ids_Nil: "without_ids [] rows = rows"
  by (simp add: without_ids_def)

lemma rows_of_without_ids:
  "rows_of k (without_ids ids rows) = (if k \<in> set ids then [] else rows_of k rows)"
  by (induction rows) (auto simp: without_ids_def rows_of_def)

lemma deleteNotesByAppleIds_Inr:
  "deleteNotesByAppleIds env ids w = (Inr n, w') \<Longrightarrow> notes_table w' = without_ids ids (notes_table w)"
  by (auto simp: deleteNotesByAppleIds_def Let_def advance_def without_ids_def split: if_splits)

lemma deleteNotesByAppleIds_Inl:
  "deleteNotesByAppleIds env ids w = (Inl e, w') \<Longrightarrow> notes_table w' = notes_table w"
  by (auto simp: deleteNotesByAppleIds_def Let_def advance_def split: if_splits)

lemma sync_delete_step_notes:
  assumes "sync_delete_step env jobId del w = (r, w')"
  shows "notes_table w' = notes_table w \<or> notes_table w' = without_ids del (notes_table w)"
    and "\<not> isl r \<Longrightarrow> notes_table w' = without_ids del (notes_table w)"
proof -
  have "(notes_table w' = notes_table w \<or> notes_table w' = without_ids del (notes_table w))
      \<and> (\<not> isl r \<longrightarrow> notes_table w' = without_ids del (notes_table w))"
  proof (cases "length del > 0")
    case False
    with assms show ?thesis by (simp add: sync_delete_step_def without_ids_Nil)
  next
    case True
    with assms have "andThen (deleteNotesByAppleIds env del) (\<lambda>_.
           andThen (updateJobProgress env jobId (length del) 0) (\<lambda>_ w. (Inr (length del), w))) w
        = (r, w')"
      by (simp add: sync_delete_step_def)
    then show ?thesis
    proof (cases rule: andThen_elim)
      case (fail e)
      with deleteNotesByAppleIds_Inl [OF fail(1)] show ?thesis by simp
    next
      case (ok n w1)
      note d = deleteNotesByAppleIds_Inr [OF ok(1)]
      from ok(2) have "w' = snd (updateJobProgress env jobId (length del) 0 w1)"
        by (auto simp: andThen_def split: prod.splits sum.splits)
      with d show ?thesis by (simp add: notes_updateJobProgress)
    qed
  qed
  then show "notes_table w' = notes_table w \<or> notes_table w' = without_ids del (notes_table w)"
    and "\<not> isl r \<Longrightarrow> notes_table w' = without_ids del (notes_table w)"
    by simp_all
qed

text \<open>
  A property of the table of notes that the deletion establishes and the tasks keep holds
  after a sync that returns; if it also holds before the sync, it holds after every sync.
\<close>

lemma syncNotes_notes:
  assumes run: "syncNotes env w = (r, w')"
    and del: "\<And>ss. jxa_summaries env (tick w) = Inr ss \<Longrightarrow>
        Q (without_ids (sync_deleted ss (note_hashes (notes_table w) [])) (notes_table w))"
    and task: "\<And>ss x w1. jxa_summaries env (tick w) = Inr ss \<Longrightarrow> x \<in> set (map s_id ss) \<Longrightarrow>
        Q (notes_table w1) \<Longrightarrow>
        Q (notes_table (snd (syncTask env (note_hashes (notes_table w) []) x w1)))"
    and start: "isl r \<Longrightarrow> Q (notes_table w)"
  shows "Q (notes_table w')"
proof -
  note run' = run [unfolded syncNotes_unfold]
  from run' show ?thesis
  proof (cases rule: andThen_elim)
    case (fail e)
    then have "w' = advance w" by (simp add: getAllNotesSummary_def)
    with start fail(2) show ?thesis by (simp add: advance_def)
  next
    case (ok ss w1)
    then have ss: "jxa_summaries env (tick w) = Inr ss" and w1: "w1 = advance w"
      by (simp_all add: getAllNotesSummary_def)
    from ok(2) show ?thesis
    proof (cases rule: andThen_elim)
      case (fail e)
      then have "w' = advance w1" by (auto simp: getAllNoteHashes_def split: if_splits)
      with start fail(2) w1 show ?thesis by (simp add: advance_def)
    next
      case (ok hashes w2)
      then have hashes: "hashes = note_hashes (notes_table w) []" and w2: "notes_table w2 = notes_table w"
        using w1 by (auto simp: getAllNoteHashes_def advance_def split: if_splits)
      define dl where "dl = sync_deleted ss hashes"
      from ok(2) show ?thesis
        unfolding dl_def [symmetric]
      proof (cases rule: andThen_elim)
        case (fail e)
        then have "notes_table w' = notes_table w2"
          using notes_createIndexingJob [of env "length ss + length dl" w2] by simp
        with start fail(2) w2 show ?thesis by simp
      next
        case (ok jobId w3)
        then have w3: "notes_table w3 = notes_table w"
          using notes_createIndexingJob [of env "length ss + length dl" w2] w2 by simp
        from ok(2) show ?thesis
        proof (cases rule: andThen_elim)
          case (fail e)
          from sync_delete_step_notes(1) [OF fail(1)] w3
          have "notes_table w' = notes_table w \<or> notes_table w' = without_ids dl (notes_table w)"
            by simp
          with start fail(2) del [OF ss] show ?thesis
            by (auto simp: dl_def hashes)
        next
          case (ok p0 w4)
          from sync_delete_step_notes(2) [OF ok(1)] w3
          have "notes_table w4 = without_ids dl (notes_table w)" by simp
          with del [OF ss] have q4: "Q (notes_table w4)" by (simp add: dl_def hashes)
          define r5 where "r5 = fst (batchLoop env (syncTask env hashes) jobId (map s_id ss) 0 p0 0 w4)"
          define w5 where "w5 = snd (batchLoop env (syncTask env hashes) jobId (map s_id ss) 0 p0 0 w4)"
          have q5: "Q (notes_table w5)"
            unfolding w5_def
          proof (rule batchLoop_notes_inv [where Q = Q])
            show "Q (notes_table w4)" by (rule q4)
          next
            fix x and wa :: world
            assume "x \<in> set (map s_id ss)" "Q (notes_table wa)"
            then show "Q (notes_table (snd (syncTask env hashes x wa)))"
              unfolding hashes by (rule task [OF ss])
          qed
          have loop: "batchLoop env (syncTask env hashes) jobId (map s_id ss) 0 p0 0 w4 = (r5, w5)"
            by (simp add: r5_def w5_def)
          show ?thesis
          proof (cases r5)
            case (Inl e)
            with ok(2) loop have "w' = w5" by (simp add: andThen_def)
            with q5 show ?thesis by simp
          next
            case (Inr pf)
            with ok(2) loop have "w' = snd (completeJob env jobId Completed w5)"
              by (auto simp: andThen_def split: prod.splits sum.splits)
            with q5 show ?thesis by (simp add: notes_completeJob)
          qed
        qed
      qed
    qed
  qed
qed

subsection \<open>Notes that a sync leaves alone\<close>

lemma sync_quiet_rows:
  assumes cons: "source_consistent env"
    and run: "syncNotes env w0 = (r, w1)"
    and ss: "jxa_summaries env (tick w0) = Inr ss"
    and mem: "noteId \<in> set (map s_id ss)"
    and quiet: "\<forall>t. jxa_details_by_id env t noteId = Inr None
        \<or> (\<exists>details. jxa_details_by_id env t noteId = Inr (Some details)
              \<and> map_of (note_hashes (notes_table w0) []) noteId
                  = Some (generateContentHash env (d_content details)))"
  shows "rows_of noteId (notes_table w1) = rows_of noteId (notes_table w0)"
proof (rule syncNotes_notes [OF run, where Q = "\<lambda>rows. rows_of noteId rows = rows_of noteId (notes_table w0)"])
  fix ss'
  assume "jxa_summaries env (tick w0) = Inr ss'"
  with ss have "ss' = ss" by simp
  with mem have "noteId \<notin> set (sync_deleted ss' (note_hashes (notes_table w0) []))"
    by (simp add: sync_deleted_def)
  then show "rows_of noteId (without_ids (sync_deleted ss' (note_hashes (notes_table w0) [])) (notes_table w0))
      = rows_of noteId (notes_table w0)"
    by (simp add: rows_of_without_ids)
next
  fix ss' x and wa :: world
  assume q: "rows_of noteId (notes_table wa) = rows_of noteId (notes_table w0)"
  show "rows_of noteId (notes_table (snd (syncTask env (note_hashes (notes_table w0) []) x wa)))
      = rows_of noteId (notes_table w0)"
  proof (cases "x = noteId")
    case True
    have "syncTask env (note_hashes (notes_table w0) []) noteId wa = (Inr (), advance wa)"
      using quiet [THEN spec, of "tick wa"] by (intro syncTask_skip) simp
    with True q show ?thesis by (simp add: advance_def)
  next
    case False
    then have "noteId \<noteq> x" by simp
    from syncTask_other [OF cons this] q show ?thesis by simp
  qed
next
  show "rows_of noteId (notes_table w0) = rows_of noteId (notes_table w0)" by simp
qed

subsection \<open>The calls a sync records\<close>

lemma embed_calls_append: "embed_calls (xs @ ys) = embed_calls xs + embed_calls ys"
  by (simp add: embed_calls_def)

lemma upsert_calls_append: "upsert_calls (xs @ ys) = upsert_calls xs + upsert_calls ys"
  by (simp add: upsert_calls_def)

lemma calls_within_events:
  assumes "events w' = events w \<or> (\<exists>j. events w' = events w @ [JobState j])"
  shows "calls_within E U 0 w w'"
proof -
  from assms consider "events w' = events w @ []" | j where "events w' = events w @ [JobState j]"
    by auto
  then show ?thesis
  proof cases
    case 1
    then show ?thesis
      unfolding calls_within_def by (intro exI [of _ "[]"]) (simp add: embed_calls_def upsert_calls_def)
  next
    case 2
    then show ?thesis
      unfolding calls_within_def
      by (intro exI [of _ "[JobState j]"]) (simp add: embed_calls_def upsert_calls_def allowed_def)
  qed
qed

lemma calls_within_refl: "calls_within E U 0 w w"
  by (rule calls_within_events) simp

lemma calls_within_trans:
  assumes "calls_within E U n w w1" "calls_within E U m w1 w2"
  shows "calls_within E U (n + m) w w2"
proof -
  from assms(1) obtain a where a: "events w1 = events w @ a" "embed_calls a \<le> n"
    "upsert_calls a \<le> n" "\<forall>e \<in> set a. allowed E U e"
    unfolding calls_within_def by blast
  from assms(2) obtain b where b: "events w2 = events w1 @ b" "embed_calls b \<le> m"
    "upsert_calls b \<le> m" "\<forall>e \<in> set b. allowed E U e"
    unfolding calls_within_def by blast
  have "events w2 = events w @ (a @ b)" by (simp add: a(1) b(1))
  moreover have "embed_calls (a @ b) \<le> n + m" using a(2) b(2) by (simp add: embed_calls_append)
  moreover have "upsert_calls (a @ b) \<le> n + m" using a(3) b(3) by (simp add: upsert_calls_append)
  moreover have "\<forall>e \<in> set (a @ b). allowed E U e" using a(4) b(4) by auto
  ultimately show ?thesis unfolding calls_within_def by blast
qed

lemma calls_within_mono:
  assumes "calls_within E U n w w'" "n \<le> m"
  shows "calls_within E U m w w'"
  using assms unfolding calls_within_def by (meson order_trans)

lemma calls_within_then:
  assumes "calls_within E U n w w1" "calls_within E U 0 w1 w2"
  shows "calls_within E U n w w2"
  using calls_within_trans [OF assms] by simp

lemma calls_getAllNotesSummary: "calls_within E U 0 w (snd (getAllNotesSummary env w))"
  by (rule calls_within_events) (simp add: getAllNotesSummary_def advance_def)

lemma calls_getAllNoteHashes: "calls_within E U 0 w (snd (getAllNoteHashes env w))"
  by (rule calls_within_events) (simp add: getAllNoteHashes_def advance_def)

lemma calls_createIndexingJob: "calls_within E U 0 w (snd (createIndexingJob env T w))"
  by (rule calls_within_events) (simp add: createIndexingJob_def advance_def emit_def Let_def)

lemma calls_updateJobProgress: "calls_within E U 0 w (snd (updateJobProgress env jobId p f w))"
  by (rule calls_within_events)
     (simp add: updateJobProgress_def advance_def emit_def Let_def split: option.splits)

lemma calls_completeJob: "calls_within E U 0 w (snd (completeJob env jobId st w))"
  by (rule calls_within_events)
     (simp add: completeJob_def advance_def emit_def Let_def split: option.splits)

lemma calls_deleteNotesByAppleIds: "calls_within E U 0 w (snd (deleteNotesByAppleIds env ids w))"
  by (rule calls_within_events) (simp add: deleteNotesByAppleIds_def advance_def Let_def)

lemma calls_sync_delete_step: "calls_within E U 0 w (snd (sync_delete_step env jobId del w))"
proof (cases "length del > 0")
  case False
  then show ?thesis by (simp add: sync_delete_step_def calls_within_refl)
next
  case True
  obtain r1 w1 where d: "deleteNotesByAppleIds env del w = (r1, w1)"
    by (cases "deleteNotesByAppleIds env del w")
  have c1: "calls_within E U 0 w w1"
    using calls_deleteNotesByAppleIds [of E U w env del] d by simp
  show ?thesis
  proof (cases r1)
    case (Inl e)
    with True d c1 show ?thesis by (simp add: sync_delete_step_def andThen_def)
  next
    case (Inr n)
    obtain r2 w2 where u: "updateJobProgress env jobId (length del) 0 w1 = (r2, w2)"
      by (cases "updateJobProgress env jobId (length del) 0 w1")
    have c2: "calls_within E U 0 w1 w2"
      using calls_updateJobProgress [of E U w1 env jobId "length del" 0] u by simp
    have "snd (sync_delete_step env jobId del w) = w2"
      using True d Inr u by (simp add: sync_delete_step_def andThen_def split: sum.splits)
    with calls_within_then [OF c1 c2] show ?thesis by simp
  qed
qed

text \<open>\<open>processNote\<close> records one call of the embedding service and then at most one upsert.\<close>

lemma processNote_events:
  "events (snd (processNote env note w)) = events w @ [EmbedCall (embedding_text env note)]
   \<or> events (snd (processNote env note w))
       = events w @ [EmbedCall (embedding_text env note), UpsertCall (d_id note)]"
proof -
  obtain r w' where p: "processNote env note w = (r, w')" by (cases "processNote env note w")
  then have "events w' = events w @ [EmbedCall (embedding_text env note)]
     \<or> events w' = events w @ [EmbedCall (embedding_text env note), UpsertCall (d_id note)]"
  proof (cases rule: processNote_cases)
    case (embed_failed e)
    then show ?thesis
      by (simp add: generateEmbedding_def emit_def advance_def embedding_text_def)
  next
    case (upsert_done args w1 r1)
    have "events w1 = events w @ [EmbedCall (embedding_text env note)]"
      by (simp add: upsert_done(1) generateEmbedding_def emit_def advance_def embedding_text_def)
    moreover have "events w' = events w1 @ [UpsertCall (d_id note)]"
      using upsert_done(3) upsert_done(2)
      by (auto simp: upsertNote_def Let_def emit_def advance_def split: if_splits option.splits)
    ultimately show ?thesis by simp
  qed
  with p show ?thesis by simp
qed

lemma calls_processNote:
  assumes "E (embedding_text env note)" "U (d_id note)"
  shows "calls_within E U 1 w (snd (processNote env note w))"
  using processNote_events [of env _ w]
proof
  assume "events (snd (processNote env note w)) = events w @ [EmbedCall (embedding_text env note)]"
  then show ?thesis
    unfolding calls_within_def using assms
    by (intro exI [of _ "[EmbedCall (embedding_text env note)]"])
       (simp add: embed_calls_def upsert_calls_def allowed_def)
next
  assume "events (snd (processNote env note w))
       = events w @ [EmbedCall (embedding_text env note), UpsertCall (d_id note)]"
  then show ?thesis
    unfolding calls_within_def using assms
    by (intro exI [of _ "[EmbedCall (embedding_text env note), UpsertCall (d_id note)]"])
       (simp add: embed_calls_def upsert_calls_def allowed_def)
qed

text \<open>
  The task of \<open>syncNotes\<close> either does nothing but the fetch, or fetches a note whose hash
  is not the stored one and processes it.
\<close>

lemma syncTask_changed:
  obtains (skipped) "snd (syncTask env hashes noteId w) = advance w"
    | (processed) details where "jxa_details_by_id env (tick w) noteId = Inr (Some details)"
        "Some (generateContentHash env (d_content details)) \<noteq> map_of hashes noteId"
        "syncTask env hashes noteId w = processNote env details (advance w)"
proof (cases "jxa_details_by_id env (tick w) noteId")
  case (Inl e)
  then have "snd (syncTask env hashes noteId w) = advance w"
    by (simp add: syncTask_def andThen_def getNoteDetailsById_def)
  then show ?thesis by (rule skipped)
next
  case (Inr found)
  show ?thesis
  proof (cases found)
    case None
    with Inr have "snd (syncTask env hashes noteId w) = advance w"
      by (simp add: syncTask_def andThen_def getNoteDetailsById_def)
    then show ?thesis by (rule skipped)
  next
    case (Some details)
    show ?thesis
    proof (cases "Some (generateContentHash env (d_content details)) = map_of hashes noteId")
      case True
      with Inr Some have "snd (syncTask env hashes noteId w) = advance w"
        by (simp add: syncTask_def andThen_def getNoteDetailsById_def Let_def)
      then show ?thesis by (rule skipped)
    next
      case False
      with Inr Some have "syncTask env hashes noteId w = processNote env details (advance w)"
        by (simp add: syncTask_def andThen_def getNoteDetailsById_def Let_def)
      with Inr Some False show ?thesis by (intro processed [of details]) simp_all
    qed
  qed
qed

lemma calls_syncTask:
  assumes quiet: "P x \<Longrightarrow> syncTask env hashes x w = (Inr (), advance w)"
    and attr: "\<And>d. jxa_details_by_id env (tick w) x = Inr (Some d) \<Longrightarrow>
        Some (generateContentHash env (d_content d)) \<noteq> map_of hashes x \<Longrightarrow>
        E (embedding_text env d) \<and> U (d_id d)"
  shows "calls_within E U (if P x then 0 else 1) w (snd (syncTask env hashes x w))"
proof (cases "P x")
  case True
  with quiet have "snd (syncTask env hashes x w) = advance w" by simp
  then have "calls_within E U 0 w (snd (syncTask env hashes x w))"
    by (intro calls_within_events) (simp add: advance_def)
  with True show ?thesis by simp
next
  case False
  have "calls_within E U 1 w (snd (syncTask env hashes x w))"
  proof (cases rule: syncTask_changed [of env hashes x w])
    case skipped
    then have "calls_within E U 0 w (snd (syncTask env hashes x w))"
      by (intro calls_within_events) (simp add: advance_def)
    then show ?thesis by (rule calls_within_mono) simp
  next
    case (processed details)
    from attr [OF processed(1) processed(2)]
    have "calls_within E U 1 (advance w) (snd (processNote env details (advance w)))"
      by (intro calls_processNote) simp_all
    moreover have "calls_within E U 0 w (advance w)"
      by (intro calls_within_events) (simp add: advance_def)
    ultimately have "calls_within E U (0 + 1) w (snd (processNote env details (advance w)))"
      by (intro calls_within_trans)
    then show ?thesis by (simp add: processed(3))
  qed
  with False show ?thesis by simp
qed

subsection \<open>The calls and the rejections of a batch, of the loop and of a sync\<close>

lemma allSettled_calls:
  assumes "\<And>x w. x \<in> set xs \<Longrightarrow> calls_within E U (if P x then 0 else 1) w (snd (task x w))"
  shows "calls_within E U (length (filter (\<lambda>x. \<not> P x) xs)) w (snd (allSettled task xs w))"
  using assms
proof (induction xs arbitrary: w)
  case Nil
  show ?case by (simp add: calls_within_refl)
next
  case (Cons x xs)
  obtain r w1 where t: "task x w = (r, w1)" by (cases "task x w")
  obtain rs w2 where a: "allSettled task xs w1 = (rs, w2)" by (cases "allSettled task xs w1")
  have c1: "calls_within E U (if P x then 0 else 1) w w1"
    using Cons.prems [of x w] t by simp
  have c2: "calls_within E U (length (filter (\<lambda>x. \<not> P x) xs)) w1 w2"
    using Cons.IH [of w1] Cons.prems a by simp
  have "calls_within E U ((if P x then 0 else 1) + length (filter (\<lambda>x. \<not> P x) xs)) w w2"
    using c1 c2 by (rule calls_within_trans)
  then show ?case using t a by (auto split: if_splits)
qed

lemma allSettled_rejected:
  assumes "\<And>x w. x \<in> set xs \<Longrightarrow> P x \<Longrightarrow> \<not> isl (fst (task x w))"
  shows "length (filter isl (fst (allSettled task xs w))) \<le> length (filter (\<lambda>x. \<not> P x) xs)"
  using assms
proof (induction xs arbitrary: w)
  case Nil
  show ?case by simp
next
  case (Cons x xs)
  obtain r w1 where t: "task x w = (r, w1)" by (cases "task x w")
  obtain rs w2 where a: "allSettled task xs w1 = (rs, w2)" by (cases "allSettled task xs w1")
  have r: "P x \<Longrightarrow> \<not> isl r" using Cons.prems [of x w] t by simp
  have "length (filter isl rs) \<le> length (filter (\<lambda>x. \<not> P x) xs)"
    using Cons.IH [of w1] Cons.prems a by simp
  then show ?case using t a r by auto
qed

lemma tally_count:
  "tally rs (p, f) = (p + length (filter (\<lambda>r. \<not> isl r) rs), f + length (filter isl rs))"
  by (induction rs arbitrary: p f) (auto split: sum.splits)

lemma batch_take_drop:
  "js_slice items (int i) (int (i + BATCH_SIZE)) = take BATCH_SIZE (drop i items)"
  by (auto simp: js_slice_def Let_def min_def)

lemma length_filter_take: "length (filter Q (take k xs)) \<le> length (filter Q xs)"
proof -
  have "length (filter Q xs) = length (filter Q (take k xs @ drop k xs))" by simp
  also have "\<dots> = length (filter Q (take k xs)) + length (filter Q (drop k xs))"
    by (simp only: filter_append length_append)
  finally show ?thesis by simp
qed

lemma batchLoop_calls:
  assumes step: "\<And>x w. x \<in> set items \<Longrightarrow>
        calls_within E U (if P x then 0 else 1) w (snd (task x w))"
    and ok: "\<And>x w. x \<in> set items \<Longrightarrow> P x \<Longrightarrow> \<not> isl (fst (task x w))"
  shows "calls_within E U (length (filter (\<lambda>x. \<not> P x) items)) w
           (snd (batchLoop env task jobId items 0 p 0 w))
       \<and> (\<forall>p' f'. fst (batchLoop env task jobId items 0 p 0 w) = Inr (p', f') \<longrightarrow>
            f' \<le> length (filter (\<lambda>x. \<not> P x) items))"
proof (rule batchLoop_rule [where
      Inv = "\<lambda>i p f w'. calls_within E U (length (filter (\<lambda>x. \<not> P x) (take i items))) w w'
                \<and> f \<le> length (filter (\<lambda>x. \<not> P x) (take i items))"
      and Post = "\<lambda>r w'. calls_within E U (length (filter (\<lambda>x. \<not> P x) items)) w w'
                \<and> (\<forall>p' f'. r = Inr (p', f') \<longrightarrow> f' \<le> length (filter (\<lambda>x. \<not> P x) items))"])
  show "calls_within E U (length (filter (\<lambda>x. \<not> P x) (take 0 items))) w w
      \<and> 0 \<le> length (filter (\<lambda>x. \<not> P x) (take 0 items))"
    by (simp add: calls_within_refl)
next
  fix i p f wa rs w1 p' f' w2
  assume inv: "calls_within E U (length (filter (\<lambda>x. \<not> P x) (take i items))) w wa
                \<and> f \<le> length (filter (\<lambda>x. \<not> P x) (take i items))"
    and a: "allSettled task (js_slice items (int i) (int (i + BATCH_SIZE))) wa = (rs, w1)"
    and t: "tally rs (p, f) = (p', f')"
  define batch where "batch = take BATCH_SIZE (drop i items)"
  have a': "allSettled task batch wa = (rs, w1)"
    using a by (simp only: batch_take_drop batch_def)
  have sub: "set batch \<subseteq> set items"
    unfolding batch_def by (meson set_take_subset set_drop_subset subset_trans)
  have split: "take (i + BATCH_SIZE) items = take i items @ batch"
    by (simp add: batch_def take_add)
  have c1: "calls_within E U (length (filter (\<lambda>x. \<not> P x) batch)) wa w1"
    using allSettled_calls [of batch E U P task wa] step sub a' by auto
  have rej: "length (filter isl rs) \<le> length (filter (\<lambda>x. \<not> P x) batch)"
    using allSettled_rejected [of batch P task wa] ok sub a' by auto
  have f': "f' = f + length (filter isl rs)"
    using t by (simp add: tally_count)
  have c: "calls_within E U (length (filter (\<lambda>x. \<not> P x) (take (i + BATCH_SIZE) items))) w w1"
    using calls_within_trans [OF inv [THEN conjunct1] c1] by (simp add: split)
  have fb: "f' \<le> length (filter (\<lambda>x. \<not> P x) (take (i + BATCH_SIZE) items))"
    using inv rej by (simp add: f' split)
  have le: "length (filter (\<lambda>x. \<not> P x) (take (i + BATCH_SIZE) items))
      \<le> length (filter (\<lambda>x. \<not> P x) items)"
    by (rule length_filter_take)
  {
    assume u: "updateJobProgress env jobId p' f' w1 = (Inr (), w2)"
    have "calls_within E U 0 w1 w2"
      using calls_updateJobProgress [of E U w1 env jobId p' f'] u by simp
    with c have "calls_within E U (length (filter (\<lambda>x. \<not> P x) (take (i + BATCH_SIZE) items))) w w2"
      by (rule calls_within_then)
    with fb show "calls_within E U (length (filter (\<lambda>x. \<not> P x) (take (i + BATCH_SIZE) items))) w w2
                \<and> f' \<le> length (filter (\<lambda>x. \<not> P x) (take (i + BATCH_SIZE) items))"
      by simp
  }
  {
    fix err
    assume u: "updateJobProgress env jobId p' f' w1 = (Inl err, w2)"
    have "calls_within E U 0 w1 w2"
      using calls_updateJobProgress [of E U w1 env jobId p' f'] u by simp
    with c have "calls_within E U (length (filter (\<lambda>x. \<not> P x) (take (i + BATCH_SIZE) items))) w w2"
      by (rule calls_within_then)
    then have "calls_within E U (length (filter (\<lambda>x. \<not> P x) items)) w w2"
      using le by (rule calls_within_mono)
    then show "calls_within E U (length (filter (\<lambda>x. \<not> P x) items)) w w2
                \<and> (\<forall>p' f'. Inl err = Inr (p', f') \<longrightarrow> f' \<le> length (filter (\<lambda>x. \<not> P x) items))"
      by simp
  }
next
  fix i p f wa
  assume inv: "calls_within E U (length (filter (\<lambda>x. \<not> P x) (take i items))) w wa
                \<and> f \<le> length (filter (\<lambda>x. \<not> P x) (take i items))"
    and i: "\<not> i < length items"
  then have "take i items = items" by simp
  with inv show "calls_within E U (length (filter (\<lambda>x. \<not> P x) items)) w wa
                \<and> (\<forall>p' f'. Inr (p, f) = Inr (p', f') \<longrightarrow> f' \<le> length (filter (\<lambda>x. \<not> P x) items))"
    by simp
qed

text \<open>
  A sync over the summaries \<open>ss\<close>, where the candidates in \<open>P\<close> are skipped by their task:
  it records at most one call of the embedding service and one upsert for every other
  candidate, and only the other candidates can be counted as failed.
\<close>

lemma syncNotes_calls:
  assumes run: "syncNotes env w = (r, w')"
    and ss: "jxa_summaries env (tick w) = Inr ss"
    and quiet: "\<And>x wa. x \<in> set (map s_id ss) \<Longrightarrow> P x \<Longrightarrow>
        syncTask env (note_hashes (notes_table w) []) x wa = (Inr (), advance wa)"
    and attr: "\<And>x t d. x \<in> set (map s_id ss) \<Longrightarrow>
        jxa_details_by_id env t x = Inr (Some d) \<Longrightarrow>
        Some (generateContentHash env (d_content d)) \<noteq> map_of (note_hashes (notes_table w) []) x \<Longrightarrow>
        E (embedding_text env d) \<and> U (d_id d)"
  shows "calls_within E U (length (filter (\<lambda>s. \<not> P (s_id s)) ss)) w w'
       \<and> (\<forall>res. r = Inr res \<longrightarrow> r_failedNotes res \<le> length (filter (\<lambda>s. \<not> P (s_id s)) ss))"
proof -
  define N where "N = length (filter (\<lambda>s. \<not> P (s_id s)) ss)"
  have N: "length (filter (\<lambda>x. \<not> P x) (map s_id ss)) = N"
    by (simp add: N_def filter_map comp_def)
  note run' = run [unfolded syncNotes_unfold]
  have "calls_within E U N w w' \<and> (\<forall>res. r = Inr res \<longrightarrow> r_failedNotes res \<le> N)"
    using run'
  proof (cases rule: andThen_elim)
    case (fail e)
    with ss show ?thesis by (simp add: getAllNotesSummary_def)
  next
    case (ok ss' w1)
    then have ss': "ss' = ss" using ss by (simp add: getAllNotesSummary_def)
    have c1: "calls_within E U 0 w w1"
      using calls_getAllNotesSummary [of E U w env] ok(1) by simp
    have n1: "notes_table w1 = notes_table w"
      using ok(1) by (auto simp: getAllNotesSummary_def advance_def)
    from ok(2) show ?thesis
      unfolding ss'
    proof (cases rule: andThen_elim)
      case (fail e)
      have "calls_within E U 0 w1 w'"
        using calls_getAllNoteHashes [of E U w1 env] fail(1) by simp
      with c1 have "calls_within E U 0 w w'" by (rule calls_within_then)
      then have "calls_within E U N w w'" by (rule calls_within_mono) simp
      with fail(2) show ?thesis by simp
    next
      case (ok hashes w2)
      then have hashes: "hashes = note_hashes (notes_table w) []"
        using n1 by (auto simp: getAllNoteHashes_def advance_def split: if_splits)
      have c2: "calls_within E U 0 w w2"
        using calls_getAllNoteHashes [of E U w1 env] ok(1) c1 by (auto intro: calls_within_then)
      define dl where "dl = sync_deleted ss hashes"
      from ok(2) show ?thesis
        unfolding dl_def [symmetric]
      proof (cases rule: andThen_elim)
        case (fail e)
        have "calls_within E U 0 w2 w'"
          using calls_createIndexingJob [of E U w2 env "length ss + length dl"] fail(1) by simp
        with c2 have "calls_within E U 0 w w'" by (rule calls_within_then)
        then have "calls_within E U N w w'" by (rule calls_within_mono) simp
        with fail(2) show ?thesis by simp
      next
        case (ok jobId w3)
        have c3: "calls_within E U 0 w w3"
          using calls_createIndexingJob [of E U w2 env "length ss + length dl"] ok(1) c2
          by (auto intro: calls_within_then)
        from ok(2) show ?thesis
        proof (cases rule: andThen_elim)
          case (fail e)
          have "calls_within E U 0 w3 w'"
            using calls_sync_delete_step [of E U w3 env jobId dl] fail(1) by simp
          with c3 have "calls_within E U 0 w w'" by (rule calls_within_then)
          then have "calls_within E U N w w'" by (rule calls_within_mono) simp
          with fail(2) show ?thesis by simp
        next
          case (ok p0 w4)
          have c4: "calls_within E U 0 w w4"
            using calls_sync_delete_step [of E U w3 env jobId dl] ok(1) c3
            by (auto intro: calls_within_then)
          define r5 where "r5 = fst (batchLoop env (syncTask env hashes) jobId (map s_id ss) 0 p0 0 w4)"
          define w5 where "w5 = snd (batchLoop env (syncTask env hashes) jobId (map s_id ss) 0 p0 0 w4)"
          have loop: "calls_within E U (length (filter (\<lambda>x. \<not> P x) (map s_id ss))) w4 w5
              \<and> (\<forall>p' f'. r5 = Inr (p', f') \<longrightarrow> f' \<le> length (filter (\<lambda>x. \<not> P x) (map s_id ss)))"
            unfolding r5_def w5_def
          proof (rule batchLoop_calls)
            fix x and wa :: world
            assume x: "x \<in> set (map s_id ss)"
            show "calls_within E U (if P x then 0 else 1) wa (snd (syncTask env hashes x wa))"
            proof (rule calls_syncTask)
              assume "P x"
              with x show "syncTask env hashes x wa = (Inr (), advance wa)"
                unfolding hashes by (rule quiet)
            next
              fix d
              assume "jxa_details_by_id env (tick wa) x = Inr (Some d)"
                "Some (generateContentHash env (d_content d)) \<noteq> map_of hashes x"
              then show "E (embedding_text env d) \<and> U (d_id d)"
                unfolding hashes by (intro attr [OF x])
            qed
            assume "P x"
            with x have "syncTask env hashes x wa = (Inr (), advance wa)"
              unfolding hashes by (rule quiet)
            then show "\<not> isl (fst (syncTask env hashes x wa))" by simp
          qed
          have "calls_within E U (0 + length (filter (\<lambda>x. \<not> P x) (map s_id ss))) w w5"
            by (rule calls_within_trans [OF c4 loop [THEN conjunct1]])
          then have c5: "calls_within E U N w w5"
            by (simp only: N add_0)
          have run5: "batchLoop env (syncTask env hashes) jobId (map s_id ss) 0 p0 0 w4 = (r5, w5)"
            by (simp add: r5_def w5_def)
          show ?thesis
          proof (cases r5)
            case (Inl e)
            with ok(2) run5 have "w' = w5" "r = Inl e" by (simp_all add: andThen_def)
            with c5 show ?thesis by simp
          next
            case (Inr pf)
            obtain p f where pf: "pf = (p, f)" by (cases pf)
            have fN: "f \<le> N" using loop Inr pf unfolding N by simp
            obtain r6 w6 where cj: "completeJob env jobId Completed w5 = (r6, w6)"
              by (cases "completeJob env jobId Completed w5")
            have c6: "calls_within E U N w w6"
              using calls_completeJob [of E U w5 env jobId Completed] cj c5
              by (auto intro: calls_within_then)
            from ok(2) run5 Inr pf cj have "w' = w6"
              and "\<forall>res. r = Inr res \<longrightarrow> r_failedNotes res = f"
              by (auto simp: andThen_def split: sum.splits)
            with c6 fN show ?thesis by simp
          qed
        qed
      qed
    qed
  qed
  then show ?thesis by (simp add: N_def)
qed

lemma calls_withinD:
  assumes "calls_within E U n w w'"
  shows "\<exists>new. events w' = events w @ new \<and> embed_calls new \<le> n \<and> upsert_calls new \<le> n
           \<and> (\<forall>tx. EmbedCall tx \<in> set new \<longrightarrow> E tx) \<and> (\<forall>k. UpsertCall k \<in> set new \<longrightarrow> U k)"
proof -
  from assms obtain new where new: "events w' = events w @ new" "embed_calls new \<le> n"
    "upsert_calls new \<le> n" "\<forall>e \<in> set new. allowed E U e"
    unfolding calls_within_def by blast
  have "E tx" if "EmbedCall tx \<in> set new" for tx
    using new(4) that by (force simp: allowed_def)
  moreover have "U k" if "UpsertCall k \<in> set new" for k
    using new(4) that by (force simp: allowed_def)
  ultimately show ?thesis using new(1-3) by blast
qed

text \<open>
  A sync in which the candidates in \<open>P\<close> are skipped by their task, whenever it runs:
  what it records and what it counts.
\<close>

lemma sync_skipping:
  assumes run: "syncNotes env w0 = (r, w1)"
    and ss: "jxa_summaries env (tick w0) = Inr ss"
    and quiet: "\<And>x t. P x \<Longrightarrow>
        jxa_details_by_id env t x = Inr None
        \<or> (\<exists>d. jxa_details_by_id env t x = Inr (Some d)
              \<and> map_of (note_hashes (notes_table w0) []) x
                  = Some (generateContentHash env (d_content d)))"
  shows "(\<exists>new. events w1 = events w0 @ new
           \<and> embed_calls new \<le> length (filter (\<lambda>s. \<not> P (s_id s)) ss)
           \<and> upsert_calls new \<le> length (filter (\<lambda>s. \<not> P (s_id s)) ss)
           \<and> (\<forall>text. EmbedCall text \<in> set new \<longrightarrow>
                (\<exists>s \<in> set ss. \<not> P (s_id s)
                   \<and> (\<exists>t d. jxa_details_by_id env t (s_id s) = Inr (Some d)
                          \<and> text = embedding_text env d)))
           \<and> (source_consistent env \<longrightarrow>
                (\<forall>k. UpsertCall k \<in> set new \<longrightarrow> (\<exists>s \<in> set ss. k = s_id s \<and> \<not> P k))))
       \<and> (\<forall>res. r = Inr res \<longrightarrow>
            r_failedNotes res \<le> length (filter (\<lambda>s. \<not> P (s_id s)) ss)
          \<and> r_processedNotes res + r_failedNotes res = r_totalNotes res
          \<and> r_totalNotes res
              = length ss + length (sync_deleted ss (note_hashes (notes_table w0) [])))"
proof -
  define E where "E = (\<lambda>text. \<exists>s \<in> set ss. \<not> P (s_id s)
      \<and> (\<exists>t d. jxa_details_by_id env t (s_id s) = Inr (Some d) \<and> text = embedding_text env d))"
  define U where "U = (\<lambda>k. source_consistent env \<longrightarrow> (\<exists>s \<in> set ss. k = s_id s \<and> \<not> P k))"
  define N where "N = length (filter (\<lambda>s. \<not> P (s_id s)) ss)"
  have calls: "calls_within E U N w0 w1
      \<and> (\<forall>res. r = Inr res \<longrightarrow> r_failedNotes res \<le> N)"
    unfolding N_def
  proof (rule syncNotes_calls [OF run ss])
    fix x and wa :: world
    assume "x \<in> set (map s_id ss)" "P x"
    from quiet [OF this(2), of "tick wa"]
    show "syncTask env (note_hashes (notes_table w0) []) x wa = (Inr (), advance wa)"
      by (rule syncTask_skip)
  next
    fix x t d
    assume x: "x \<in> set (map s_id ss)"
      and d: "jxa_details_by_id env t x = Inr (Some d)"
      and h: "Some (generateContentHash env (d_content d)) \<noteq> map_of (note_hashes (notes_table w0) []) x"
    have np: "\<not> P x"
    proof
      assume "P x"
      from quiet [OF this, of t] d h show False by auto
    qed
    from x obtain s where s: "s \<in> set ss" "x = s_id s" by auto
    have "E (embedding_text env d)"
      unfolding E_def using s np d by blast
    moreover have "U (d_id d)"
      unfolding U_def
    proof
      assume "source_consistent env"
      with d have "d_id d = x" by (auto simp: source_consistent_def)
      with s np show "\<exists>s \<in> set ss. d_id d = s_id s \<and> \<not> P (d_id d)" by auto
    qed
    ultimately show "E (embedding_text env d) \<and> U (d_id d)" ..
  qed
  from calls_withinD [OF calls [THEN conjunct1]] obtain new where new: "events w1 = events w0 @ new"
    "embed_calls new \<le> N" "upsert_calls new \<le> N"
    "\<And>tx. EmbedCall tx \<in> set new \<Longrightarrow> E tx" "\<And>k. UpsertCall k \<in> set new \<Longrightarrow> U k"
    by blast
  have first: "\<exists>new. events w1 = events w0 @ new
           \<and> embed_calls new \<le> N \<and> upsert_calls new \<le> N
           \<and> (\<forall>text. EmbedCall text \<in> set new \<longrightarrow>
                (\<exists>s \<in> set ss. \<not> P (s_id s)
                   \<and> (\<exists>t d. jxa_details_by_id env t (s_id s) = Inr (Some d)
                          \<and> text = embedding_text env d)))
           \<and> (source_consistent env \<longrightarrow>
                (\<forall>k. UpsertCall k \<in> set new \<longrightarrow> (\<exists>s \<in> set ss. k = s_id s \<and> \<not> P k)))"
  proof (intro exI [of _ new] conjI allI impI)
    show "events w1 = events w0 @ new" by (rule new(1))
    show "embed_calls new \<le> N" by (rule new(2))
    show "upsert_calls new \<le> N" by (rule new(3))
  next
    fix tx assume "EmbedCall tx \<in> set new"
    then have "E tx" by (rule new(4))
    then show "\<exists>s \<in> set ss. \<not> P (s_id s)
                   \<and> (\<exists>t d. jxa_details_by_id env t (s_id s) = Inr (Some d)
                          \<and> tx = embedding_text env d)"
      by (simp add: E_def)
  next
    fix k assume "source_consistent env" "UpsertCall k \<in> set new"
    from new(5) [OF this(2)] this(1)
    show "\<exists>s \<in> set ss. k = s_id s \<and> \<not> P k" by (simp add: U_def)
  qed
  have second: "r_failedNotes res \<le> N
          \<and> r_processedNotes res + r_failedNotes res = r_totalNotes res
          \<and> r_totalNotes res
              = length ss + length (sync_deleted ss (note_hashes (notes_table w0) []))"
    if "r = Inr res" for res
  proof -
    from calls that have "r_failedNotes res \<le> N" by simp
    moreover from run_outcome_result [OF syncNotes_outcome_counts [OF run ss] that]
    have "r_processedNotes res + r_failedNotes res = r_totalNotes res"
      and "r_totalNotes res = length ss + length (sync_deleted ss (note_hashes (notes_table w0) []))"
      by simp_all
    ultimately show ?thesis by simp
  qed
  from first second show ?thesis
    unfolding N_def by blast
qed

text \<open>
  Claim C3. When the note fetched for an update candidate has the hash that is stored
  for it, the task of \<open>syncNotes\<close> for that candidate is fulfilled and does nothing but the
  fetch: it records no call of the embedding service and no upsert, it leaves the table
  of notes as it is, and its outcome is counted in \<open>processedNotes\<close>.

  For a whole sync over the listed summaries, take the candidates that are unchanged:
  those that, whenever they are fetched, are found with the hash that the store holds for
  them at the start of the sync. The sync records at most one call of the embedding
  service and at most one upsert for every other candidate, so none for the unchanged
  ones; every call of the embedding service that it records is for a note fetched for a
  candidate that is not unchanged, and every upsert is of such a candidate (when the note
  source answers a fetch with the note of the id asked for). If the sync returns its
  result, at most the other candidates are counted in \<open>failedNotes\<close>, and every note is
  counted in \<open>processedNotes\<close> or in \<open>failedNotes\<close>: the unchanged candidates are counted
  in \<open>processedNotes\<close>. The stored rows of an unchanged candidate are the same after the
  sync.
\<close>

theorem hash_short_circuit:
  "(jxa_details_by_id env (tick w) noteId = Inr (Some details)
      \<and> map_of hashes noteId = Some (generateContentHash env (d_content details)) \<longrightarrow>
        syncTask env hashes noteId w = (Inr (), advance w)
      \<and> events (snd (syncTask env hashes noteId w)) = events w
      \<and> notes_table (snd (syncTask env hashes noteId w)) = notes_table w
      \<and> tally (fst (syncTask env hashes noteId w) # rs) (p, f) = tally rs (Suc p, f))
   \<and> (syncNotes env w0 = (r, w1) \<and> jxa_summaries env (tick w0) = Inr ss \<longrightarrow>
        (\<exists>new. events w1 = events w0 @ new
           \<and> embed_calls new \<le> length (filter (\<lambda>s. \<not> unchanged_in env w0 (s_id s)) ss)
           \<and> upsert_calls new \<le> length (filter (\<lambda>s. \<not> unchanged_in env w0 (s_id s)) ss)
           \<and> (\<forall>text. EmbedCall text \<in> set new \<longrightarrow>
                (\<exists>s \<in> set ss. \<not> unchanged_in env w0 (s_id s)
                   \<and> (\<exists>t d. jxa_details_by_id env t (s_id s) = Inr (Some d)
                          \<and> text = embedding_text env d)))
           \<and> (source_consistent env \<longrightarrow>
                (\<forall>k. UpsertCall k \<in> set new \<longrightarrow>
                   (\<exists>s \<in> set ss. k = s_id s \<and> \<not> unchanged_in env w0 k))))
      \<and> (\<forall>res. r = Inr res \<longrightarrow>
            r_failedNotes res \<le> length (filter (\<lambda>s. \<not> unchanged_in env w0 (s_id s)) ss)
          \<and> r_processedNotes res + r_failedNotes res = r_totalNotes res
          \<and> r_totalNotes res
              = length ss + length (sync_deleted ss (note_hashes (notes_table w0) []))))
   \<and> (source_consistent env \<and> syncNotes env w0 = (r, w1)
      \<and> jxa_summaries env (tick w0) = Inr ss \<and> noteId \<in> set (map s_id ss)
      \<and> unchanged_in env w0 noteId \<longrightarrow>
        rows_of noteId (notes_table w1) = rows_of noteId (notes_table w0))"
proof (intro conjI impI)
  assume a: "jxa_details_by_id env (tick w) noteId = Inr (Some details)
      \<and> map_of hashes noteId = Some (generateContentHash env (d_content details))"
  then have skip: "syncTask env hashes noteId w = (Inr (), advance w)"
    by (intro syncTask_skip) auto
  then show "syncTask env hashes noteId w = (Inr (), advance w)" .
  from skip show "events (snd (syncTask env hashes noteId w)) = events w"
    by (simp add: advance_def)
  from skip show "notes_table (snd (syncTask env hashes noteId w)) = notes_table w"
    by (simp add: advance_def)
  from skip show "tally (fst (syncTask env hashes noteId w) # rs) (p, f) = tally rs (Suc p, f)"
    by simp
next
  assume a: "syncNotes env w0 = (r, w1) \<and> jxa_summaries env (tick w0) = Inr ss"
  have q: "jxa_details_by_id env t x = Inr None
        \<or> (\<exists>d. jxa_details_by_id env t x = Inr (Some d)
              \<and> map_of (note_hashes (notes_table w0) []) x
                  = Some (generateContentHash env (d_content d)))"
    if "unchanged_in env w0 x" for x t
    using that unfolding unchanged_in_def by blast
  note s = sync_skipping [OF a [THEN conjunct1] a [THEN conjunct2],
      where P = "unchanged_in env w0", OF q]
  from s show "\<exists>new. events w1 = events w0 @ new
           \<and> embed_calls new \<le> length (filter (\<lambda>s. \<not> unchanged_in env w0 (s_id s)) ss)
           \<and> upsert_calls new \<le> length (filter (\<lambda>s. \<not> unchanged_in env w0 (s_id s)) ss)
           \<and> (\<forall>text. EmbedCall text \<in> set new \<longrightarrow>
                (\<exists>s \<in> set ss. \<not> unchanged_in env w0 (s_id s)
                   \<and> (\<exists>t d. jxa_details_by_id env t (s_id s) = Inr (Some d)
                          \<and> text = embedding_text env d)))
           \<and> (source_consistent env \<longrightarrow>
                (\<forall>k. UpsertCall k \<in> set new \<longrightarrow>
                   (\<exists>s \<in> set ss. k = s_id s \<and> \<not> unchanged_in env w0 k)))" ..
  from s show "\<forall>res. r = Inr res \<longrightarrow>
            r_failedNotes res \<le> length (filter (\<lambda>s. \<not> unchanged_in env w0 (s_id s)) ss)
          \<and> r_processedNotes res + r_failedNotes res = r_totalNotes res
          \<and> r_totalNotes res
              = length ss + length (sync_deleted ss (note_hashes (notes_table w0) []))" ..
next
  assume a: "source_consistent env \<and> syncNotes env w0 = (r, w1)
      \<and> jxa_summaries env (tick w0) = Inr ss \<and> noteId \<in> set (map s_id ss)
      \<and> unchanged_in env w0 noteId"
  then have "\<forall>t. jxa_details_by_id env t noteId = Inr None
        \<or> (\<exists>details. jxa_details_by_id env t noteId = Inr (Some details)
              \<and> map_of (note_hashes (notes_table w0) []) noteId
                  = Some (generateContentHash env (d_content details)))"
    unfolding unchanged_in_def by blast
  with a show "rows_of noteId (notes_table w1) = rows_of noteId (notes_table w0)"
    by (intro sync_quiet_rows [of env w0 r w1 ss]) simp_all
qed

text \<open>
  Claim C10. When the note source returns not-found for an update candidate, the task
  of \<open>syncNotes\<close> for that candidate is fulfilled, so it is counted in \<open>processedNotes\<close> and
  not in \<open>failedNotes\<close>; it records no call of the embedding service and no upsert and
  leaves the table of notes as it is.

  For a whole sync over the listed summaries, take the candidates that are never found
  when they are fetched. The sync records at most one call of the embedding service and
  at most one upsert for every other candidate, so none for those that are not found;
  every call of the embedding service that it records is for a note that was found, and
  every upsert is of a candidate that is found at some fetch (when the note source
  answers a fetch with the note of the id asked for). If the sync returns its result, at
  most the other candidates are counted in \<open>failedNotes\<close>, and every note is counted in
  \<open>processedNotes\<close> or in \<open>failedNotes\<close>: the candidates that are not found are counted in
  \<open>processedNotes\<close>. The stored rows of a candidate that is not found are the same after
  the sync.
\<close>

theorem not_found_is_processed:
  "(jxa_details_by_id env (tick w) noteId = Inr None \<longrightarrow>
        syncTask env hashes noteId w = (Inr (), advance w)
      \<and> events (snd (syncTask env hashes noteId w)) = events w
      \<and> notes_table (snd (syncTask env hashes noteId w)) = notes_table w
      \<and> tally (fst (syncTask env hashes noteId w) # rs) (p, f) = tally rs (Suc p, f))
   \<and> (syncNotes env w0 = (r, w1) \<and> jxa_summaries env (tick w0) = Inr ss \<longrightarrow>
        (\<exists>new. events w1 = events w0 @ new
           \<and> embed_calls new \<le> length (filter (\<lambda>s. \<not> never_found env (s_id s)) ss)
           \<and> upsert_calls new \<le> length (filter (\<lambda>s. \<not> never_found env (s_id s)) ss)
           \<and> (\<forall>text. EmbedCall text \<in> set new \<longrightarrow>
                (\<exists>s \<in> set ss. \<not> never_found env (s_id s)
                   \<and> (\<exists>t d. jxa_details_by_id env t (s_id s) = Inr (Some d)
                          \<and> text = embedding_text env d)))
           \<and> (source_consistent env \<longrightarrow>
                (\<forall>k. UpsertCall k \<in> set new \<longrightarrow>
                   (\<exists>s \<in> set ss. k = s_id s \<and> \<not> never_found env k))))
      \<and> (\<forall>res. r = Inr res \<longrightarrow>
            r_failedNotes res \<le> length (filter (\<lambda>s. \<not> never_found env (s_id s)) ss)
          \<and> r_processedNotes res + r_failedNotes res = r_totalNotes res
          \<and> r_totalNotes res
              = length ss + length (sync_deleted ss (note_hashes (notes_table w0) []))))
   \<and> (source_consistent env \<and> syncNotes env w0 = (r, w1)
      \<and> jxa_summaries env (tick w0) = Inr ss \<and> noteId \<in> set (map s_id ss)
      \<and> never_found env noteId \<longrightarrow>
        rows_of noteId (notes_table w1) = rows_of noteId (notes_table w0))"
proof (intro conjI impI)
  assume a: "jxa_details_by_id env (tick w) noteId = Inr None"
  then have skip: "syncTask env hashes noteId w = (Inr (), advance w)"
    by (intro syncTask_skip) auto
  then show "syncTask env hashes noteId w = (Inr (), advance w)" .
  from skip show "events (snd (syncTask env hashes noteId w)) = events w"
    by (simp add: advance_def)
  from skip show "notes_table (snd (syncTask env hashes noteId w)) = notes_table w"
    by (simp add: advance_def)
  from skip show "tally (fst (syncTask env hashes noteId w) # rs) (p, f) = tally rs (Suc p, f)"
    by simp
next
  assume a: "syncNotes env w0 = (r, w1) \<and> jxa_summaries env (tick w0) = Inr ss"
  have q: "jxa_details_by_id env t x = Inr None
        \<or> (\<exists>d. jxa_details_by_id env t x = Inr (Some d)
              \<and> map_of (note_hashes (notes_table w0) []) x
                  = Some (generateContentHash env (d_content d)))"
    if "never_found env x" for x t
    using that unfolding never_found_def by blast
  note s = sync_skipping [OF a [THEN conjunct1] a [THEN conjunct2],
      where P = "never_found env", OF q]
  from s show "\<exists>new. events w1 = events w0 @ new
           \<and> embed_calls new \<le> length (filter (\<lambda>s. \<not> never_found env (s_id s)) ss)
           \<and> upsert_calls new \<le> length (filter (\<lambda>s. \<not> never_found env (s_id s)) ss)
           \<and> (\<forall>text. EmbedCall text \<in> set new \<longrightarrow>
                (\<exists>s \<in> set ss. \<not> never_found env (s_id s)
                   \<and> (\<exists>t d. jxa_details_by_id env t (s_id s) = Inr (Some d)
                          \<and> text = embedding_text env d)))
           \<and> (source_consistent env \<longrightarrow>
                (\<forall>k. UpsertCall k \<in> set new \<longrightarrow>
                   (\<exists>s \<in> set ss. k = s_id s \<and> \<not> never_found env k)))" ..
  from s show "\<forall>res. r = Inr res \<longrightarrow>
            r_failedNotes res \<le> length (filter (\<lambda>s. \<not> never_found env (s_id s)) ss)
          \<and> r_processedNotes res + r_failedNotes res = r_totalNotes res
          \<and> r_totalNotes res
              = length ss + length (sync_deleted ss (note_hashes (notes_table w0) []))" ..
next
  assume a: "source_consistent env \<and> syncNotes env w0 = (r, w1)
      \<and> jxa_summaries env (tick w0) = Inr ss \<and> noteId \<in> set (map s_id ss)
      \<and> never_found env noteId"
  then have "\<forall>t. jxa_details_by_id env t noteId = Inr None
        \<or> (\<exists>details. jxa_details_by_id env t noteId = Inr (Some details)
              \<and> map_of (note_hashes (notes_table w0) []) noteId
                  = Some (generateContentHash env (d_content details)))"
    unfolding never_found_def by blast
  with a show "rows_of noteId (notes_table w1) = rows_of noteId (notes_table w0)"
    by (intro sync_quiet_rows [of env w0 r w1 ss]) simp_all
qed

lemma ex_env_consistent: "source_consistent ex_env"
  by (simp add: source_consistent_def ex_env_def ex_note_def)

lemma ex_summaries:
  "jxa_summaries ex_env t = Inr (map ex_summary [''n1'', ''n2'', ''n5'', ''n6''])"
  by (simp add: ex_env_def)

lemma ex_sync_run:
  "syncNotes ex_env indexed_world
     = (fst (syncNotes ex_env indexed_world), snd (syncNotes ex_env indexed_world))"
  by simp

lemma ex_unchanged:
  "unchanged_in ex_env indexed_world ''n1''" "unchanged_in ex_env indexed_world ''n2''"
  "\<not> unchanged_in ex_env indexed_world ''n5''" "\<not> unchanged_in ex_env indexed_world ''n6''"
proof -
  have h1: "map_of (note_hashes (notes_table indexed_world) []) ''n1''
      = Some (generateContentHash ex_env (d_content (ex_note ''n1'')))"
    by code_simp
  have h2: "map_of (note_hashes (notes_table indexed_world) []) ''n2''
      = Some (generateContentHash ex_env (d_content (ex_note ''n2'')))"
    by code_simp
  have h6: "map_of (note_hashes (notes_table indexed_world) []) ''n6'' = None"
    by code_simp
  show "unchanged_in ex_env indexed_world ''n1''"
    unfolding unchanged_in_def using h1 by (simp add: ex_env_def)
  show "unchanged_in ex_env indexed_world ''n2''"
    unfolding unchanged_in_def using h2 by (simp add: ex_env_def)
  show "\<not> unchanged_in ex_env indexed_world ''n5''"
    unfolding unchanged_in_def by (simp add: ex_env_def)
  show "\<not> unchanged_in ex_env indexed_world ''n6''"
    unfolding unchanged_in_def using h6 by simp
qed

lemma ex_never_found: "never_found ex_env k \<longleftrightarrow> k = ''n5''"
  by (simp add: never_found_def ex_env_def)

lemma ex_sync_result:
  "fst (syncNotes ex_env indexed_world)
     = Inr \<lparr>r_jobId = 2, r_totalNotes = 5, r_processedNotes = 5, r_failedNotes = 0,
            r_status = Completed\<rparr>"
  by code_simp

lemma ex_sync_calls:
  "filter (\<lambda>e. case e of JobState _ \<Rightarrow> False | _ \<Rightarrow> True)
     (drop (length (events indexed_world)) (events (snd (syncNotes ex_env indexed_world))))
   = [EmbedCall (embedding_text ex_env (ex_note ''n6'')), UpsertCall ''n6'']"
  by code_simp

text \<open>
  The sync after the full index lists \<open>n1\<close>, \<open>n2\<close>, \<open>n5\<close> and \<open>n6\<close>. The notes \<open>n1\<close> and
  \<open>n2\<close> are fetched with the hash that is stored for them: the task of \<open>n1\<close> is fulfilled
  and records nothing, the sync records no upsert of \<open>n1\<close> and, for its four candidates,
  the one call of the embedding service and the one upsert of the new note \<open>n6\<close>; it
  counts all five notes in \<open>processedNotes\<close>, and the row of \<open>n1\<close> is the same after it.
\<close>

theorem hash_short_circuit_witness:
  "jxa_details_by_id ex_env (tick indexed_world) ''n1'' = Inr (Some (ex_note ''n1''))
   \<and> map_of (note_hashes (notes_table indexed_world) []) ''n1''
       = Some (generateContentHash ex_env (d_content (ex_note ''n1'')))
   \<and> fst (syncTask ex_env (note_hashes (notes_table indexed_world) []) ''n1'' indexed_world) = Inr ()
   \<and> events (snd (syncTask ex_env (note_hashes (notes_table indexed_world) []) ''n1'' indexed_world))
       = events indexed_world
   \<and> notes_table (snd (syncTask ex_env (note_hashes (notes_table indexed_world) []) ''n1'' indexed_world))
       = notes_table indexed_world
   \<and> ''n1'' \<in> set (map s_id (map ex_summary [''n1'', ''n2'', ''n5'', ''n6'']))
   \<and> unchanged_in ex_env indexed_world ''n1''
   \<and> length (filter (\<lambda>s. \<not> unchanged_in ex_env indexed_world (s_id s))
               (map ex_summary [''n1'', ''n2'', ''n5'', ''n6''])) = 2
   \<and> (\<exists>new. events (snd (syncNotes ex_env indexed_world)) = events indexed_world @ new
         \<and> embed_calls new \<le> 2 \<and> upsert_calls new \<le> 2 \<and> UpsertCall ''n1'' \<notin> set new)
   \<and> filter (\<lambda>e. case e of JobState _ \<Rightarrow> False | _ \<Rightarrow> True)
        (drop (length (events indexed_world)) (events (snd (syncNotes ex_env indexed_world))))
       = [EmbedCall (embedding_text ex_env (ex_note ''n6'')), UpsertCall ''n6'']
   \<and> fst (syncNotes ex_env indexed_world)
       = Inr \<lparr>r_jobId = 2, r_totalNotes = 5, r_processedNotes = 5, r_failedNotes = 0,
              r_status = Completed\<rparr>
   \<and> r_failedNotes \<lparr>r_jobId = 2, r_totalNotes = 5, r_processedNotes = 5, r_failedNotes = 0,
              r_status = Completed\<rparr> \<le> 2
   \<and> rows_of ''n1'' (notes_table (snd (syncNotes ex_env indexed_world)))
       = rows_of ''n1'' (notes_table indexed_world)"
proof -
  define ss where "ss = map ex_summary [''n1'', ''n2'', ''n5'', ''n6'']"
  define res where "res = \<lparr>r_jobId = 2, r_totalNotes = 5, r_processedNotes = 5,
      r_failedNotes = 0, r_status = Completed\<rparr>"
  have found: "jxa_details_by_id ex_env t ''n1'' = Inr (Some (ex_note ''n1''))" for t
    by (simp add: ex_env_def)
  have stored: "map_of (note_hashes (notes_table indexed_world) []) ''n1''
       = Some (generateContentHash ex_env (d_content (ex_note ''n1'')))"
    by code_simp
  have mem: "''n1'' \<in> set (map s_id ss)"
    by (simp add: ex_summary_def ss_def)
  have n: "length (filter (\<lambda>s. \<not> unchanged_in ex_env indexed_world (s_id s)) ss) = 2"
    by (simp add: ss_def ex_summary_def ex_unchanged)
  have sums: "jxa_summaries ex_env (tick indexed_world) = Inr ss"
    unfolding ss_def by (rule ex_summaries)
  have result: "fst (syncNotes ex_env indexed_world) = Inr res"
    unfolding res_def by (rule ex_sync_result)
  note claim = hash_short_circuit [where env = ex_env and w = indexed_world and noteId = "''n1''"
      and details = "ex_note ''n1''" and hashes = "note_hashes (notes_table indexed_world) []"
      and rs = "[]" and p = 0 and f = 0 and ?w0.0 = indexed_world
      and r = "fst (syncNotes ex_env indexed_world)" and ?w1.0 = "snd (syncNotes ex_env indexed_world)"
      and ss = ss]
  note task = claim [THEN conjunct1, THEN mp, OF conjI, OF found stored]
  note sync = claim [THEN conjunct2, THEN conjunct1, THEN mp, OF conjI, OF ex_sync_run sums]
  have rows: "rows_of ''n1'' (notes_table (snd (syncNotes ex_env indexed_world)))
       = rows_of ''n1'' (notes_table indexed_world)"
    by (rule claim [THEN conjunct2, THEN conjunct2, THEN mp])
       (intro conjI ex_env_consistent ex_sync_run sums mem ex_unchanged(1))
  from sync [THEN conjunct1] obtain new where new:
    "events (snd (syncNotes ex_env indexed_world)) = events indexed_world @ new"
    "embed_calls new \<le> length (filter (\<lambda>s. \<not> unchanged_in ex_env indexed_world (s_id s)) ss)"
    "upsert_calls new \<le> length (filter (\<lambda>s. \<not> unchanged_in ex_env indexed_world (s_id s)) ss)"
    "source_consistent ex_env \<longrightarrow>
       (\<forall>k. UpsertCall k \<in> set new \<longrightarrow>
          (\<exists>s \<in> set ss. k = s_id s \<and> \<not> unchanged_in ex_env indexed_world k))"
    by blast
  have no_upsert: "UpsertCall ''n1'' \<notin> set new"
  proof
    assume "UpsertCall ''n1'' \<in> set new"
    with new(4) ex_env_consistent have "\<not> unchanged_in ex_env indexed_world ''n1''" by blast
    with ex_unchanged(1) show False by simp
  qed
  have calls: "\<exists>new. events (snd (syncNotes ex_env indexed_world)) = events indexed_world @ new
         \<and> embed_calls new \<le> 2 \<and> upsert_calls new \<le> 2 \<and> UpsertCall ''n1'' \<notin> set new"
    using new(1) new(2) new(3) no_upsert unfolding n by blast
  have failed: "r_failedNotes res \<le> 2"
    using sync [THEN conjunct2, THEN spec, of res, THEN mp, OF result, THEN conjunct1]
    unfolding n .
  have t1: "fst (syncTask ex_env (note_hashes (notes_table indexed_world) []) ''n1'' indexed_world) = Inr ()"
    using task [THEN conjunct1] by simp
  note t2 = task [THEN conjunct2, THEN conjunct1]
  note t3 = task [THEN conjunct2, THEN conjunct2, THEN conjunct1]
  show ?thesis
    by (intro conjI found stored t1 t2 t3 mem [unfolded ss_def] ex_unchanged(1) n [unfolded ss_def]
        calls ex_sync_calls ex_sync_result failed [unfolded res_def] rows)
qed

text \<open>
  In the same sync the note \<open>n5\<close> is listed but not found when it is fetched: its task is
  fulfilled and records nothing, the sync records no upsert of \<open>n5\<close>, it counts all five
  notes in \<open>processedNotes\<close> and none in \<open>failedNotes\<close>, and the row the full index stored
  for \<open>n5\<close> is still there.
\<close>

theorem not_found_is_processed_witness:
  "jxa_details_by_id ex_env (tick indexed_world) ''n5'' = Inr None
   \<and> fst (syncTask ex_env (note_hashes (notes_table indexed_world) []) ''n5'' indexed_world) = Inr ()
   \<and> events (snd (syncTask ex_env (note_hashes (notes_table indexed_world) []) ''n5'' indexed_world))
       = events indexed_world
   \<and> notes_table (snd (syncTask ex_env (note_hashes (notes_table indexed_world) []) ''n5'' indexed_world))
       = notes_table indexed_world
   \<and> ''n5'' \<in> set (map s_id (map ex_summary [''n1'', ''n2'', ''n5'', ''n6'']))
   \<and> never_found ex_env ''n5''
   \<and> length (filter (\<lambda>s. \<not> never_found ex_env (s_id s))
               (map ex_summary [''n1'', ''n2'', ''n5'', ''n6''])) = 3
   \<and> (\<exists>new. events (snd (syncNotes ex_env indexed_world)) = events indexed_world @ new
         \<and> embed_calls new \<le> 3 \<and> upsert_calls new \<le> 3 \<and> UpsertCall ''n5'' \<notin> set new)
   \<and> filter (\<lambda>e. case e of JobState _ \<Rightarrow> False | _ \<Rightarrow> True)
        (drop (length (events indexed_world)) (events (snd (syncNotes ex_env indexed_world))))
       = [EmbedCall (embedding_text ex_env (ex_note ''n6'')), UpsertCall ''n6'']
   \<and> map n_apple_note_id (rows_of ''n5'' (notes_table indexed_world)) = [Some ''n5'']
   \<and> rows_of ''n5'' (notes_table (snd (syncNotes ex_env indexed_world)))
       = rows_of ''n5'' (notes_table indexed_world)
   \<and> fst (syncNotes ex_env indexed_world)
       = Inr \<lparr>r_jobId = 2, r_totalNotes = 5, r_processedNotes = 5, r_failedNotes = 0,
              r_status = Completed\<rparr>
   \<and> r_failedNotes \<lparr>r_jobId = 2, r_totalNotes = 5, r_processedNotes = 5, r_failedNotes = 0,
              r_status = Completed\<rparr> \<le> 3"
proof -
  define ss where "ss = map ex_summary [''n1'', ''n2'', ''n5'', ''n6'']"
  define res where "res = \<lparr>r_jobId = 2, r_totalNotes = 5, r_processedNotes = 5,
      r_failedNotes = 0, r_status = Completed\<rparr>"
  have missing: "jxa_details_by_id ex_env t ''n5'' = Inr None" for t
    by (simp add: ex_env_def)
  have never: "never_found ex_env ''n5''"
    by (simp add: ex_never_found)
  have mem: "''n5'' \<in> set (map s_id ss)"
    by (simp add: ex_summary_def ss_def)
  have n: "length (filter (\<lambda>s. \<not> never_found ex_env (s_id s)) ss) = 3"
    by (simp add: ss_def ex_summary_def ex_never_found)
  have sums: "jxa_summaries ex_env (tick indexed_world) = Inr ss"
    unfolding ss_def by (rule ex_summaries)
  have prior: "map n_apple_note_id (rows_of ''n5'' (notes_table indexed_world)) = [Some ''n5'']"
    by code_simp
  have result: "fst (syncNotes ex_env indexed_world) = Inr res"
    unfolding res_def by (rule ex_sync_result)
  note claim = not_found_is_processed [where env = ex_env and w = indexed_world and noteId = "''n5''"
      and hashes = "note_hashes (notes_table indexed_world) []"
      and rs = "[]" and p = 0 and f = 0 and ?w0.0 = indexed_world
      and r = "fst (syncNotes ex_env indexed_world)" and ?w1.0 = "snd (syncNotes ex_env indexed_world)"
      and ss = ss]
  note task = claim [THEN conjunct1, THEN mp, OF missing]
  note sync = claim [THEN conjunct2, THEN conjunct1, THEN mp, OF conjI, OF ex_sync_run sums]
  have rows: "rows_of ''n5'' (notes_table (snd (syncNotes ex_env indexed_world)))
       = rows_of ''n5'' (notes_table indexed_world)"
    by (rule claim [THEN conjunct2, THEN conjunct2, THEN mp])
       (intro conjI ex_env_consistent ex_sync_run sums mem never)
  from sync [THEN conjunct1] obtain new where new:
    "events (snd (syncNotes ex_env indexed_world)) = events indexed_world @ new"
    "embed_calls new \<le> length (filter (\<lambda>s. \<not> never_found ex_env (s_id s)) ss)"
    "upsert_calls new \<le> length (filter (\<lambda>s. \<not> never_found ex_env (s_id s)) ss)"
    "source_consistent ex_env \<longrightarrow>
       (\<forall>k. UpsertCall k \<in> set new \<longrightarrow> (\<exists>s \<in> set ss. k = s_id s \<and> \<not> never_found ex_env k))"
    by blast
  have no_upsert: "UpsertCall ''n5'' \<notin> set new"
  proof
    assume "UpsertCall ''n5'' \<in> set new"
    with new(4) ex_env_consistent have "\<not> never_found ex_env ''n5''" by blast
    with never show False by simp
  qed
  have calls: "\<exists>new. events (snd (syncNotes ex_env indexed_world)) = events indexed_world @ new
         \<and> embed_calls new \<le> 3 \<and> upsert_calls new \<le> 3 \<and> UpsertCall ''n5'' \<notin> set new"
    using new(1) new(2) new(3) no_upsert unfolding n by blast
  have failed: "r_failedNotes res \<le> 3"
    using sync [THEN conjunct2, THEN spec, of res, THEN mp, OF result, THEN conjunct1]
    unfolding n .
  have t1: "fst (syncTask ex_env (note_hashes (notes_table indexed_world) []) ''n5'' indexed_world) = Inr ()"
    using task [THEN conjunct1] by simp
  note t2 = task [THEN conjunct2, THEN conjunct1]
  note t3 = task [THEN conjunct2, THEN conjunct2, THEN conjunct1]
  show ?thesis
    by (intro conjI missing t1 t2 t3 mem [unfolded ss_def] never n [unfolded ss_def]
        calls ex_sync_calls prior rows ex_sync_result failed [unfolded res_def])
qed

text \<open>
  Claim C4. In a sync that lists the summaries \<open>ss\<close>: a note of the summaries that has a
  row before the sync has one after it, however the sync ends. When the sync returns its
  result, the total is the number of summaries plus the number of ids of the store's hash
  map that no summary has, every such id is counted in \<open>processedNotes\<close>, and, the note
  source answering a fetch with the note of the id asked for, no row of such an id is
  left in the table.
\<close>

theorem sync_deletes_missing_notes:
  "syncNotes env w = (r, w') \<and> jxa_summaries env (tick w) = Inr ss \<longrightarrow>
     (\<forall>k. k \<in> set (map s_id ss) \<and> rows_of k (notes_table w) \<noteq> [] \<longrightarrow>
          rows_of k (notes_table w') \<noteq> [])
   \<and> (\<forall>res. r = Inr res \<longrightarrow>
         r_totalNotes res = length ss + length (sync_deleted ss (note_hashes (notes_table w) []))
       \<and> r_processedNotes res + r_failedNotes res = r_totalNotes res
       \<and> length (sync_deleted ss (note_hashes (notes_table w) [])) \<le> r_processedNotes res
       \<and> (source_consistent env \<longrightarrow>
            (\<forall>k. k \<in> fst ` set (note_hashes (notes_table w) []) \<and> k \<notin> set (map s_id ss) \<longrightarrow>
                 rows_of k (notes_table w') = [])))"
proof (intro impI, elim conjE)
  assume run: "syncNotes env w = (r, w')" and ss: "jxa_summaries env (tick w) = Inr ss"
  define dl where "dl = sync_deleted ss (note_hashes (notes_table w) [])"
  have kept: "rows_of k (notes_table w') \<noteq> []"
    if k: "k \<in> set (map s_id ss)" "rows_of k (notes_table w) \<noteq> []" for k
  proof (rule syncNotes_notes [OF run, where Q = "\<lambda>rows. rows_of k rows \<noteq> []"])
    fix ss'
    assume "jxa_summaries env (tick w) = Inr ss'"
    with ss have "ss' = ss" by simp
    with k(1) have "k \<notin> set (sync_deleted ss' (note_hashes (notes_table w) []))"
      by (simp add: sync_deleted_def)
    with k(2) show "rows_of k (without_ids (sync_deleted ss' (note_hashes (notes_table w) [])) (notes_table w)) \<noteq> []"
      by (simp add: rows_of_without_ids)
  next
    fix ss' x and wa :: world
    assume "rows_of k (notes_table wa) \<noteq> []"
    then show "rows_of k (notes_table (snd (syncTask env (note_hashes (notes_table w) []) x wa))) \<noteq> []"
      by (rule syncTask_keeps)
  next
    show "rows_of k (notes_table w) \<noteq> []" by (rule k(2))
  qed
  have counts: "r_totalNotes res = length ss + length dl
       \<and> r_processedNotes res + r_failedNotes res = r_totalNotes res
       \<and> length dl \<le> r_processedNotes res" if res: "r = Inr res" for res
  proof -
    from syncNotes_outcome_counts [OF run ss]
    have "run_outcome (length ss + length dl) (length ss) w r w'" by (simp add: dl_def)
    from run_outcome_result [OF this res] show ?thesis by auto
  qed
  have gone: "rows_of k (notes_table w') = []"
    if res: "r = Inr res" and cons: "source_consistent env"
      and k: "k \<in> fst ` set (note_hashes (notes_table w) [])" "k \<notin> set (map s_id ss)" for res k
  proof (rule syncNotes_notes [OF run, where Q = "\<lambda>rows. rows_of k rows = []"])
    fix ss'
    assume "jxa_summaries env (tick w) = Inr ss'"
    with ss have "ss' = ss" by simp
    with k have "k \<in> set (sync_deleted ss' (note_hashes (notes_table w) []))"
      by (auto simp: sync_deleted_def)
    then show "rows_of k (without_ids (sync_deleted ss' (note_hashes (notes_table w) [])) (notes_table w)) = []"
      by (simp add: rows_of_without_ids)
  next
    fix ss' x and wa :: world
    assume "jxa_summaries env (tick w) = Inr ss'" and x: "x \<in> set (map s_id ss')"
      and q: "rows_of k (notes_table wa) = []"
    with ss have "ss' = ss" by simp
    with x k(2) have "k \<noteq> x" by auto
    from syncTask_other [OF cons this] q
    show "rows_of k (notes_table (snd (syncTask env (note_hashes (notes_table w) []) x wa))) = []"
      by simp
  next
    assume "isl r"
    with res show "rows_of k (notes_table w) = []" by simp
  qed
  from kept counts gone
  show "(\<forall>k. k \<in> set (map s_id ss) \<and> rows_of k (notes_table w) \<noteq> [] \<longrightarrow>
          rows_of k (notes_table w') \<noteq> [])
   \<and> (\<forall>res. r = Inr res \<longrightarrow>
         r_totalNotes res = length ss + length (sync_deleted ss (note_hashes (notes_table w) []))
       \<and> r_processedNotes res + r_failedNotes res = r_totalNotes res
       \<and> length (sync_deleted ss (note_hashes (notes_table w) [])) \<le> r_processedNotes res
       \<and> (source_consistent env \<longrightarrow>
            (\<forall>k. k \<in> fst ` set (note_hashes (notes_table w) []) \<and> k \<notin> set (map s_id ss) \<longrightarrow>
                 rows_of k (notes_table w') = [])))"
    unfolding dl_def by blast
qed

text \<open>
  The sync after the full index: \<open>n4\<close> is in the hash map of the store and in no summary;
  its row is gone after the sync and it is one of the five notes counted as processed.
  The listed note \<open>n1\<close> still has its row.
\<close>

theorem sync_deletes_missing_notes_witness:
  "fst (syncNotes ex_env indexed_world)
       = Inr \<lparr>r_jobId = 2, r_totalNotes = 5, r_processedNotes = 5, r_failedNotes = 0,
              r_status = Completed\<rparr>
   \<and> jxa_summaries ex_env (tick indexed_world) = Inr (map ex_summary [''n1'', ''n2'', ''n5'', ''n6''])
   \<and> sync_deleted (map ex_summary [''n1'', ''n2'', ''n5'', ''n6''])
        (note_hashes (notes_table indexed_world) []) = [''n4'']
   \<and> map n_apple_note_id (rows_of ''n4'' (notes_table indexed_world)) = [Some ''n4'']
   \<and> rows_of ''n4'' (notes_table (snd (syncNotes ex_env indexed_world))) = []
   \<and> map n_apple_note_id (rows_of ''n1'' (notes_table indexed_world)) = [Some ''n1'']
   \<and> rows_of ''n1'' (notes_table (snd (syncNotes ex_env indexed_world))) \<noteq> []"
proof -
  have res: "fst (syncNotes ex_env indexed_world)
       = Inr \<lparr>r_jobId = 2, r_totalNotes = 5, r_processedNotes = 5, r_failedNotes = 0,
              r_status = Completed\<rparr>"
    by code_simp
  have dl: "sync_deleted (map ex_summary [''n1'', ''n2'', ''n5'', ''n6''])
        (note_hashes (notes_table indexed_world) []) = [''n4'']"
    by code_simp
  have n4: "map n_apple_note_id (rows_of ''n4'' (notes_table indexed_world)) = [Some ''n4'']"
    by code_simp
  have n1: "map n_apple_note_id (rows_of ''n1'' (notes_table indexed_world)) = [Some ''n1'']"
    by code_simp
  have n1_before: "''n1'' \<in> set (map s_id (map ex_summary [''n1'', ''n2'', ''n5'', ''n6'']))
      \<and> rows_of ''n1'' (notes_table indexed_world) \<noteq> []"
    using n1 by (auto simp: ex_summary_def)
  have n4_mem: "''n4'' \<in> fst ` set (note_hashes (notes_table indexed_world) [])
      \<and> ''n4'' \<notin> set (map s_id (map ex_summary [''n1'', ''n2'', ''n5'', ''n6'']))"
    by code_simp
  note claim = sync_deletes_missing_notes [where env = ex_env and w = indexed_world
      and r = "fst (syncNotes ex_env indexed_world)" and w' = "snd (syncNotes ex_env indexed_world)"
      and ss = "map ex_summary [''n1'', ''n2'', ''n5'', ''n6'']",
      THEN mp, OF conjI, OF ex_sync_run ex_summaries]
  have kept: "rows_of ''n1'' (notes_table (snd (syncNotes ex_env indexed_world))) \<noteq> []"
    by (rule claim [THEN conjunct1, THEN spec, THEN mp, OF n1_before])
  note returned = claim [THEN conjunct2, THEN spec, THEN mp, OF res]
  have gone: "rows_of ''n4'' (notes_table (snd (syncNotes ex_env indexed_world))) = []"
    by (rule returned [THEN conjunct2, THEN conjunct2, THEN conjunct2, THEN mp, OF ex_env_consistent,
          THEN spec, THEN mp, OF n4_mem])
  from res ex_summaries [of "tick indexed_world"] dl n4 gone n1 kept show ?thesis
    by (intro conjI)
qed

subsection \<open>Failure isolation in a batch\<close>




subsection \<open>A reachable store completes the job\<close>




lemma jobs_getAllNotesWithDetails:
  "jobs_table (snd (getAllNotesWithDetails env w)) = jobs_table w"
  "jobs_id_seq (snd (getAllNotesWithDetails env w)) = jobs_id_seq w"
  by (simp_all add: getAllNotesWithDetails_def advance_def)





end
